theory Spec2Isabelle
  imports Main "HOL-Library.Word"
begin

unbundle bit_operations_syntax

section \<open>PS/2 receive engine (CDTV\_PS2Mouse\_Joy.ino, lines 167--213)\<close>

type_synonym u8 = "8 word"
type_synonym u16 = "16 word"
type_synonym u32 = "32 word"

text \<open>
  The globals \<open>ps2_head\<close>, \<open>ps2_tail\<close>, \<open>ps2_recv_buffer[16]\<close>, the three
  function-local statics of \<open>ps2_recv_isr\<close> (\<open>bitcount\<close>, \<open>data\<close>, \<open>last\<close>)
  and the static \<open>ps2state\<close> of \<open>ps2_get_state\<close>. The static \<open>last\<close> is named
  \<open>last_edge\<close> here, since \<open>last\<close> is a list function of HOL.
\<close>

record ps2 =
  ps2_head :: u8
  ps2_tail :: u8
  ps2_recv_buffer :: "u8 list"
  bitcount :: u8
  data :: u8
  last_edge :: u8
  ps2state :: u8

text \<open>The state after the C initialisers: both indices 0, sixteen slots, statics 0.\<close>

definition ps2_init :: ps2 where
  "ps2_init = \<lparr>ps2_head = 0, ps2_tail = 0, ps2_recv_buffer = replicate 16 0,
     bitcount = 0, data = 0, last_edge = 0, ps2state = 0\<rparr>"

text \<open>\<open>avail = ps2_tail - ps2_head; return avail & 0xF;\<close>\<close>

definition ps2_available :: "ps2 \<Rightarrow> u8" where
  "ps2_available s = (ps2_tail s - ps2_head s) AND 0xF"

text \<open>\<open>ps2_get_data\<close> returns the byte and the state with the head advanced.\<close>

definition ps2_get_data :: "ps2 \<Rightarrow> u8 \<times> ps2" where
  "ps2_get_data s =
     (if ps2_tail s \<noteq> ps2_head s
      then (ps2_recv_buffer s ! unat (ps2_head s),
            s\<lparr>ps2_head := (ps2_head s + 1) AND 0xF\<rparr>)
      else (0, s))"

text \<open>
  The falling-edge handler. Its two inputs are what it reads from the hardware: the
  value returned by \<open>millis()\<close> (an \<open>unsigned long\<close>, truncated to \<open>uint8_t curr\<close>)
  and whether \<open>digitalRead(PS2DATAPIN) == HIGH\<close>. In \<open>curr-last > 5\<close> both
  operands are promoted to \<open>int\<close>, so the difference is a signed integer between
  -255 and 255 and is compared as such.
\<close>

definition ps2_recv_isr :: "u32 \<Rightarrow> bool \<Rightarrow> ps2 \<Rightarrow> ps2" where
  "ps2_recv_isr millis pin s =
     (let curr = (ucast millis :: u8);
          bc0 = (if uint curr - uint (last_edge s) > 5 then 0 else bitcount s);
          d1 = drop_bit 1 (data s);
          d2 = (if pin then d1 OR 0x80 else d1);
          bc1 = bc0 + 1;
          s1 = s\<lparr>bitcount := bc1, data := d2, last_edge := curr\<rparr>
      in if bc1 = 9 then
           (let t_tail = (ps2_tail s + 1) AND 0xF
            in if t_tail \<noteq> ps2_head s
               then s1\<lparr>ps2_recv_buffer := (ps2_recv_buffer s)[unat (ps2_tail s) := d2],
                       ps2_tail := t_tail\<rparr>
               else s1)
         else if bc1 = 11 then s1\<lparr>bitcount := 0\<rparr>
         else s1)"

text \<open>
  One loop iteration of \<open>ps2_get_state\<close>: the status byte is taken; when its bits 2--3
  are \<open>10\<close> the two delta bytes are taken as well (\<open>int8_t\<close>, read with \<open>sint\<close>) and
  \<open>ps2state\<close> is recomputed; otherwise only the status byte has been consumed.
\<close>

definition ps2_get_state_body :: "ps2 \<Rightarrow> ps2" where
  "ps2_get_state_body s =
     (let (ps2status, s1) = ps2_get_data s
      in if ps2status AND 0xC = 0x8 then
           (let (ps2dx, s2) = ps2_get_data s1;
                (ps2dy, s3) = ps2_get_data s2;
                st0 = push_bit 6 (ps2status AND 0x3);
                st1 = (if sint ps2dx > 0 then st0 OR 0x4
                       else if sint ps2dx < 0 then st0 OR 0x8 else st0);
                st2 = (if sint ps2dy > 0 then st1 OR 0x20
                       else if sint ps2dy < 0 then st1 OR 0x10 else st1)
            in s3\<lparr>ps2state := st2\<rparr>)
         else s1)"

subsection \<open>Index arithmetic modulo 16\<close>

lemma and_0xF: "(x :: u8) AND 0xF = take_bit 4 x"
  by (simp add: take_bit_eq_mask mask_eq_exp_minus_1)

lemma unat_and_0xF: "unat ((x :: u8) AND 0xF) = unat x mod 16"
  by (simp only: and_0xF unsigned_take_bit_eq) (simp add: take_bit_eq_mod)

lemma uint_and_0xF: "uint ((x :: u8) AND 0xF) = uint x mod 16"
  by (simp only: and_0xF unsigned_take_bit_eq) (simp add: take_bit_eq_mod)

lemma avail_dec_eq:
  fixes h t :: u8
  shows "(t - ((h + 1) AND 0xF)) AND 0xF = ((t - h) - 1) AND 0xF"
proof (rule word_uint_eqI)
  have d: "(16::int) dvd 256" by simp
  have "uint ((t - ((h + 1) AND 0xF)) AND 0xF) = (uint t - (uint h + 1) mod 256 mod 16) mod 256 mod 16"
    by (simp only: uint_and_0xF uint_word_ariths) simp
  also have "\<dots> = (uint t - (uint h + 1) mod 16) mod 16"
    by (simp only: mod_mod_cancel [OF d])
  also have "\<dots> = (uint t - (uint h + 1)) mod 16"
    by (rule mod_diff_right_eq)
  finally have l: "uint ((t - ((h + 1) AND 0xF)) AND 0xF) = (uint t - (uint h + 1)) mod 16" .
  have "uint (((t - h) - 1) AND 0xF) = ((uint t - uint h) mod 256 - 1) mod 256 mod 16"
    by (simp only: uint_and_0xF uint_word_ariths) simp
  also have "\<dots> = ((uint t - uint h) mod 256 - 1) mod 16"
    by (simp only: mod_mod_cancel [OF d])
  also have "\<dots> = ((uint t - uint h) mod 256 mod 16 - 1 mod 16) mod 16"
    by (simp only: mod_diff_eq)
  also have "\<dots> = ((uint t - uint h) mod 16 - 1 mod 16) mod 16"
    by (simp only: mod_mod_cancel [OF d])
  also have "\<dots> = (uint t - uint h - 1) mod 16"
    by (simp only: mod_diff_eq)
  finally show "uint ((t - ((h + 1) AND 0xF)) AND 0xF) = uint (((t - h) - 1) AND 0xF)"
    using l by (simp add: algebra_simps)
qed

lemma avail_dec:
  fixes a :: u8
  assumes "a AND 0xF \<noteq> 0"
  shows "unat ((a - 1) AND 0xF) = unat (a AND 0xF) - 1"
proof -
  from assms have nz: "a \<noteq> 0" by auto
  then have u: "unat (a - 1) = unat a - 1" by (simp add: unat_minus_one)
  from assms have "unat (a AND 0xF) \<noteq> 0" by (simp only: unsigned_eq_0_iff) simp
  then have m: "unat a mod 16 \<noteq> 0" by (simp add: unat_and_0xF)
  then have "unat a \<noteq> 0" by auto
  then have "unat a = Suc (unat a - 1)" by simp
  then have "unat a mod 16 = Suc ((unat a - 1) mod 16)"
    using m by (metis mod_Suc)
  then have "(unat a - 1) mod 16 = unat a mod 16 - 1" by simp
  then show ?thesis by (simp add: unat_and_0xF u)
qed

lemma get_data_tail: "ps2_tail (snd (ps2_get_data s)) = ps2_tail s"
  by (simp add: ps2_get_data_def)

lemma get_data_buffer: "ps2_recv_buffer (snd (ps2_get_data s)) = ps2_recv_buffer s"
  by (simp add: ps2_get_data_def)

lemma get_data_ps2state: "ps2state (snd (ps2_get_data s)) = ps2state s"
  by (simp add: ps2_get_data_def)

lemma available_nonempty: "ps2_available s \<noteq> 0 \<Longrightarrow> ps2_tail s \<noteq> ps2_head s"
  by (auto simp: ps2_available_def)

lemma available_get_data:
  assumes "ps2_available s \<noteq> 0"
  shows "unat (ps2_available (snd (ps2_get_data s))) = unat (ps2_available s) - 1"
proof -
  have ne: "ps2_tail s \<noteq> ps2_head s" using assms by (rule available_nonempty)
  have "ps2_available (snd (ps2_get_data s)) = ((ps2_tail s - ps2_head s) - 1) AND 0xF"
    using ne by (simp add: ps2_get_data_def ps2_available_def avail_dec_eq)
  then show ?thesis
    using assms avail_dec [of "ps2_tail s - ps2_head s"] by (simp add: ps2_available_def)
qed

lemma unat_ge3: "(3::u8) \<le> a \<Longrightarrow> 3 \<le> unat a"
  by (simp add: word_le_nat_alt)

lemma available_body:
  assumes "3 \<le> ps2_available s"
  shows "unat (ps2_available (ps2_get_state_body s)) =
         unat (ps2_available s) - (if fst (ps2_get_data s) AND 0xC = 0x8 then 3 else 1)"
proof -
  let ?s1 = "snd (ps2_get_data s)"
  let ?s2 = "snd (ps2_get_data ?s1)"
  let ?s3 = "snd (ps2_get_data ?s2)"
  have a0: "3 \<le> unat (ps2_available s)" using assms by (rule unat_ge3)
  then have n0: "ps2_available s \<noteq> 0" by auto
  have a1: "unat (ps2_available ?s1) = unat (ps2_available s) - 1"
    using n0 by (rule available_get_data)
  then have n1: "ps2_available ?s1 \<noteq> 0" using a0 by auto
  have a2: "unat (ps2_available ?s2) = unat (ps2_available s) - 2"
    using available_get_data [OF n1] a1 by simp
  then have n2: "ps2_available ?s2 \<noteq> 0" using a0 by auto
  have a3: "unat (ps2_available ?s3) = unat (ps2_available s) - 3"
    using available_get_data [OF n2] a2 by simp
  show ?thesis
    using a1 a3 by (simp add: ps2_get_state_body_def Let_def split_beta ps2_available_def)
qed

text \<open>
  \<open>while(ps2_available() >= 3) { ... }\<close>: every iteration takes at least one byte,
  which is the measure of the termination proof.
\<close>

function ps2_get_state_loop :: "ps2 \<Rightarrow> ps2" where
  "ps2_get_state_loop s =
     (if 3 \<le> ps2_available s then ps2_get_state_loop (ps2_get_state_body s) else s)"
  by pat_completeness auto
termination
proof (relation "measure (\<lambda>s. unat (ps2_available s))")
  show "wf (measure (\<lambda>s. unat (ps2_available s)))" by simp
next
  fix s :: ps2
  assume a: "3 \<le> ps2_available s"
  have "3 \<le> unat (ps2_available s)" using a by (rule unat_ge3)
  then show "(ps2_get_state_body s, s) \<in> measure (\<lambda>s. unat (ps2_available s))"
    using available_body [OF a] by (simp split: if_splits)
qed

declare ps2_get_state_loop.simps [simp del]

text \<open>
  \<open>ps2_get_state\<close>: the button bits of the previous call are kept
  (\<open>ps2state & 0xC0\<close>), the loop runs, and the static is returned as \<open>uint16_t\<close>.
\<close>

definition ps2_get_state :: "ps2 \<Rightarrow> u16 \<times> ps2" where
  "ps2_get_state s =
     (let s' = ps2_get_state_loop (s\<lparr>ps2state := ps2state s AND 0xC0\<rparr>)
      in (ucast (ps2state s'), s'))"

text \<open>Ring invariant: both indices are below 16 and the buffer has its 16 slots.\<close>

definition ring_ok :: "ps2 \<Rightarrow> bool" where
  "ring_ok s \<longleftrightarrow> ps2_head s < 16 \<and> ps2_tail s < 16 \<and> length (ps2_recv_buffer s) = 16"

lemma ring_ok_init: "ring_ok ps2_init"
  by (simp add: ring_ok_def ps2_init_def)

text \<open>
  Lines 197--200 as a function of the sample: \<open>data >>= 1\<close>, then \<open>data |= 0x80\<close>
  when the data line is high.
\<close>

definition shift_in :: "bool \<Rightarrow> u8 \<Rightarrow> u8" where
  "shift_in pin d = (if pin then drop_bit 1 d OR 0x80 else drop_bit 1 d)"

text \<open>
  A well-formed frame on the wire: start bit (low), the eight data bits least
  significant first, the odd-parity bit (set when the data bits hold an even number
  of ones), stop bit (high). One sample is taken per falling clock edge.
\<close>

definition parity_bit :: "u8 \<Rightarrow> bool" where
  "parity_bit b = even (length (filter (bit b) [0..<8]))"

definition frame_bits :: "u8 \<Rightarrow> bool list" where
  "frame_bits b = False # map (bit b) [0..<8] @ [parity_bit b, True]"

text \<open>
  The handler run over a sequence of edges, each with the \<open>millis()\<close> reading and
  the data-line level at that edge.
\<close>

definition ps2_recv_edges :: "(u32 \<times> bool) list \<Rightarrow> ps2 \<Rightarrow> ps2" where
  "ps2_recv_edges es s = fold (\<lambda>(t, pin). ps2_recv_isr t pin) es s"

text \<open>No two consecutive edges are more than 5 ms apart (on the 32-bit clock).\<close>

fun gaps_ok :: "u32 list \<Rightarrow> bool" where
  "gaps_ok (t # t' # ts) = (t' - t \<le> 5 \<and> gaps_ok (t' # ts))"
| "gaps_ok _ = True"

text \<open>
  The mouse codes of the command table (lines 79--84); \<open>ps2_get_state\<close> returns a
  combination of them.
\<close>

definition CDTV_CODE_MOUSE_A :: u16 where "CDTV_CODE_MOUSE_A = 0x080"
definition CDTV_CODE_MOUSE_B :: u16 where "CDTV_CODE_MOUSE_B = 0x040"
definition CDTV_CODE_MOUSE_UP :: u16 where "CDTV_CODE_MOUSE_UP = 0x020"
definition CDTV_CODE_MOUSE_RIGHT :: u16 where "CDTV_CODE_MOUSE_RIGHT = 0x004"
definition CDTV_CODE_MOUSE_DOWN :: u16 where "CDTV_CODE_MOUSE_DOWN = 0x010"
definition CDTV_CODE_MOUSE_LEFT :: u16 where "CDTV_CODE_MOUSE_LEFT = 0x008"

lemmas cdtv_mouse_codes = CDTV_CODE_MOUSE_A_def CDTV_CODE_MOUSE_B_def CDTV_CODE_MOUSE_UP_def
  CDTV_CODE_MOUSE_RIGHT_def CDTV_CODE_MOUSE_DOWN_def CDTV_CODE_MOUSE_LEFT_def

text \<open>A ring holding the given bytes, oldest first, in an otherwise initial state.\<close>

definition ring_of :: "u8 list \<Rightarrow> ps2" where
  "ring_of bs = ps2_init\<lparr>ps2_recv_buffer := bs @ replicate (16 - length bs) 0,
     ps2_tail := of_nat (length bs)\<rparr>"

text \<open>A full ring whose handler is about to complete a byte (eight samples taken).\<close>

definition full_ring :: ps2 where
  "full_ring = \<lparr>ps2_head = 0, ps2_tail = 15,
     ps2_recv_buffer = [1, 2, 3, 4, 5, 6, 7, 8, 9, 10, 11, 12, 13, 14, 15, 16],
     bitcount = 8, data = 0xAB, last_edge = 0, ps2state = 0\<rparr>"

section \<open>Infrared transmit engine (lines 289--390)\<close>

text \<open>
  The globals \<open>cdtv_ir_code\<close> and \<open>tx_state\<close>, the static \<open>data\<close> of the timer
  handler (named \<open>tx_data\<close>, the receive handler has a static of the same name), the
  Timer1 registers the code writes, the carrier output (\<open>IR_ENABLE()\<close> makes
  the pin an output, \<open>IR_DISABLE()\<close> an input) and the global interrupt flag that
  \<open>noInterrupts()\<close> and \<open>interrupts()\<close> clear and set.
\<close>

record tx =
  cdtv_ir_code :: u16
  tx_state :: u8
  tx_data :: u16
  OCR1A :: u16
  TCNT1 :: u16
  TCCR1B :: u8
  ir_output :: bool
  SREG_I :: bool

text \<open>\<open>enum transmitstates\<close>, with the values C assigns.\<close>

definition ir_idle :: u8 where "ir_idle = 0"
definition ir_start :: u8 where "ir_start = 1"
definition ir_transmit :: u8 where "ir_transmit = 2"
definition ir_end_pulse :: u8 where "ir_end_pulse = ir_transmit + 48"
definition ir_stop :: u8 where "ir_stop = ir_end_pulse + 1"
definition ir_repeat :: u8 where "ir_repeat = ir_stop + 1"

lemmas transmitstates = ir_idle_def ir_start_def ir_transmit_def ir_end_pulse_def
  ir_stop_def ir_repeat_def

text \<open>
  Bit numbers of \<open>TCCR1B\<close> from the device header of the ATmega328P, which the
  sketch includes through the Arduino core: the clock-select bits and the CTC mode bit.
\<close>

definition CS10 :: nat where "CS10 = 0"
definition CS11 :: nat where "CS11 = 1"
definition CS12 :: nat where "CS12 = 2"
definition WGM12 :: nat where "WGM12 = 3"

text \<open>The Timer1 part of \<open>cdtv_init_transmitter\<close> (lines 301--309).\<close>

definition cdtv_init_transmitter :: "tx \<Rightarrow> tx" where
  "cdtv_init_transmitter s =
     s\<lparr>ir_output := False, TCCR1B := 0 OR push_bit WGM12 1, TCNT1 := 0, OCR1A := 0xFFFF,
       SREG_I := True\<rparr>"

text \<open>\<open>ISR(TIMER1_COMPA_vect)\<close>, branch by branch.\<close>

definition TIMER1_COMPA_vect :: "tx \<Rightarrow> tx" where
  "TIMER1_COMPA_vect s =
     (if tx_state s = ir_start then
        s\<lparr>ir_output := False, tx_data := cdtv_ir_code s, OCR1A := 9000,
          tx_state := tx_state s + 1\<rparr>
      else if ir_transmit \<le> tx_state s \<and> tx_state s < ir_end_pulse then
        (if tx_state s AND 0x1 \<noteq> 0 then
           (let d = (if tx_state s = ir_transmit + 25 then NOT (tx_data s) else tx_data s);
                ss0 = drop_bit 1 (tx_state s - ir_transmit);
                ss = (if 12 \<le> ss0 then ss0 - 12 else ss0)
            in s\<lparr>ir_output := False, tx_data := d,
                 OCR1A := (if drop_bit (unat ss) d AND 0x1 \<noteq> 0 then 2400 else 800),
                 tx_state := tx_state s + 1\<rparr>)
         else s\<lparr>ir_output := True, OCR1A := 800, tx_state := tx_state s + 1\<rparr>)
      else if tx_state s = ir_end_pulse then
        s\<lparr>ir_output := True, OCR1A := 800, tx_state := tx_state s + 1\<rparr>
      else if tx_state s = ir_stop then
        s\<lparr>ir_output := False, TCCR1B := TCCR1B s AND NOT (push_bit CS11 1),
          tx_state := ir_idle\<rparr>
      else if tx_state s = ir_repeat then
        s\<lparr>ir_output := False, OCR1A := 4200, tx_state := ir_end_pulse\<rparr>
      else s)"

text \<open>
  \<open>cdtv_send_code\<close> and \<open>cdtv_send_repeat\<close> as the sequences of their assignments
  (the debug prints aside), one list element per C statement, run in order. Neither
  function disables interrupts, so with Timer1 running the handler can run between
  two of the statements: \<open>cdtv_send_code\<close> and \<open>cdtv_send_repeat\<close> below are the
  calls that run through undisturbed, \<open>preempted\<close> further down is the call with the
  handler serviced at one statement boundary.
\<close>

definition cdtv_send_code_stmts :: "u16 \<Rightarrow> (tx \<Rightarrow> tx) list" where
  "cdtv_send_code_stmts code =
     [\<lambda>s. s\<lparr>cdtv_ir_code := code\<rparr>,
      \<lambda>s. s\<lparr>tx_state := ir_start\<rparr>,
      \<lambda>s. s\<lparr>OCR1A := 18000\<rparr>,
      \<lambda>s. s\<lparr>TCNT1 := 0\<rparr>,
      \<lambda>s. s\<lparr>ir_output := True\<rparr>,
      \<lambda>s. s\<lparr>TCCR1B := TCCR1B s OR push_bit CS11 1\<rparr>]"

definition cdtv_send_repeat_stmts :: "(tx \<Rightarrow> tx) list" where
  "cdtv_send_repeat_stmts =
     [\<lambda>s. s\<lparr>tx_state := ir_repeat\<rparr>,
      \<lambda>s. s\<lparr>OCR1A := 18000\<rparr>,
      \<lambda>s. s\<lparr>TCNT1 := 0\<rparr>,
      \<lambda>s. s\<lparr>ir_output := True\<rparr>,
      \<lambda>s. s\<lparr>TCCR1B := TCCR1B s OR push_bit CS11 1\<rparr>]"

definition run_stmts :: "(tx \<Rightarrow> tx) list \<Rightarrow> tx \<Rightarrow> tx" where
  "run_stmts fs s = fold (\<lambda>f. f) fs s"

definition cdtv_send_code :: "u16 \<Rightarrow> tx \<Rightarrow> tx" where
  "cdtv_send_code code s = run_stmts (cdtv_send_code_stmts code) s"

definition cdtv_send_repeat :: "tx \<Rightarrow> tx" where
  "cdtv_send_repeat s = run_stmts cdtv_send_repeat_stmts s"

subsection \<open>Timer1 in CTC mode\<close>

text \<open>
  The counter runs while one of the clock-select bits is set. The code only ever sets
  and clears \<open>CS11\<close> (prescaler 8); \<open>prescaler_ok\<close> says the two other bits are
  clear, as \<open>cdtv_init_transmitter\<close> leaves them.
\<close>

definition timer_running :: "tx \<Rightarrow> bool" where
  "timer_running s \<longleftrightarrow>
     bit (TCCR1B s) CS10 \<or> bit (TCCR1B s) CS11 \<or> bit (TCCR1B s) CS12"

definition prescaler_ok :: "tx \<Rightarrow> bool" where
  "prescaler_ok s \<longleftrightarrow> \<not> bit (TCCR1B s) CS10 \<and> \<not> bit (TCCR1B s) CS12"

text \<open>
  A compare match: the hardware clears the counter and the handler runs.
\<close>

definition compare_match :: "tx \<Rightarrow> tx" where
  "compare_match s = TIMER1_COMPA_vect (s\<lparr>TCNT1 := 0\<rparr>)"

text \<open>
  The output line over time. While the timer runs, the line keeps its present state
  (carrier on or off) for the ticks left until the counter reaches \<open>OCR1A\<close>, then the
  compare match fires. The run ends when the timer has been stopped; it is \<open>None\<close>
  when the given number of compare matches does not get there. Durations are the
  programmed ones: the time the handler itself takes, and the one tick on which the
  hardware clears the counter, are not counted.
\<close>

fun timer1_run :: "nat \<Rightarrow> tx \<Rightarrow> ((bool \<times> nat) list \<times> tx) option" where
  "timer1_run 0 s = (if timer_running s then None else Some ([], s))"
| "timer1_run (Suc n) s =
     (if timer_running s then
        (case timer1_run n (compare_match s) of
           None \<Rightarrow> None
         | Some (tr, s') \<Rightarrow> Some ((ir_output s, unat (OCR1A s - TCNT1 s)) # tr, s'))
      else Some ([], s))"

text \<open>
  An interrupt request at a statement boundary of the foreground code: the handler
  runs there when interrupts are enabled and the running counter has reached
  \<open>OCR1A\<close>. \<open>preempted k fs\<close> runs the statements \<open>fs\<close> with such a request after
  the first \<open>k\<close> of them.
\<close>

definition irq :: "tx \<Rightarrow> tx" where
  "irq s = (if SREG_I s \<and> timer_running s \<and> TCNT1 s = OCR1A s then compare_match s else s)"

definition preempted :: "nat \<Rightarrow> (tx \<Rightarrow> tx) list \<Rightarrow> tx \<Rightarrow> tx" where
  "preempted k fs s = run_stmts (drop k fs) (irq (run_stmts (take k fs) s))"

text \<open>A compare match is due and would be serviced: the condition under which \<open>irq\<close> runs the handler.\<close>

definition irq_due :: "tx \<Rightarrow> bool" where
  "irq_due s \<longleftrightarrow> SREG_I s \<and> timer_running s \<and> TCNT1 s = OCR1A s"

subsection \<open>The frames of the protocol\<close>

text \<open>
  With the prescaler of 8 and the 16 MHz clock the comments of the sketch assume
  (\<open>16MHz/8\<close>, line 305), Timer1 counts two ticks per microsecond.
\<close>

definition ticks_per_us :: nat where "ticks_per_us = 2"

definition us :: "nat \<Rightarrow> nat" where "us n = n * ticks_per_us"

text \<open>
  The frame as the protocol description of the sketch (lines 21--28) words it, a list
  of (carrier on, duration in ticks): start pulse, pause, twelve bits, the same twelve
  bits inverted, final pulse. The bits go out least significant first.
\<close>

definition encode_bit :: "bool \<Rightarrow> (bool \<times> nat) list" where
  "encode_bit b = [(True, us 400), (False, if b then us 1200 else us 400)]"

definition code_bits :: "u16 \<Rightarrow> bool list" where
  "code_bits c = map (bit c) [0..<12]"

definition cdtv_frame :: "u16 \<Rightarrow> (bool \<times> nat) list" where
  "cdtv_frame c =
     [(True, us 9000), (False, us 4500)]
     @ concat (map encode_bit (code_bits c))
     @ concat (map encode_bit (map Not (code_bits c)))
     @ [(True, us 400)]"

definition cdtv_repeat_frame :: "(bool \<times> nat) list" where
  "cdtv_repeat_frame = [(True, us 9000), (False, us 2100), (True, us 400)]"

text \<open>
  What the handler does in the transmit phases, by phase number: the data register
  is complemented at phase 27, and the gap of phase \<open>n\<close> shows bit \<open>gap_index n\<close>.
\<close>

definition invert_at :: "nat \<Rightarrow> u16 \<Rightarrow> u16" where
  "invert_at n d = (if n = 27 then NOT d else d)"

definition gap_index :: "nat \<Rightarrow> nat" where
  "gap_index n = (let m = (n - 2) div 2 in if 12 \<le> m then m - 12 else m)"

primrec phases :: "nat \<Rightarrow> nat \<Rightarrow> u16 \<Rightarrow> (bool \<times> nat) list" where
  "phases 0 n d = []"
| "phases (Suc k) n d =
     (if odd n
      then (False, if bit (invert_at n d) (gap_index n) then 2400 else 800)
             # phases k (Suc n) (invert_at n d)
      else (True, 800) # phases k (Suc n) d)"

text \<open>The transmitter after power-up and \<open>cdtv_init_transmitter\<close>.\<close>

definition tx_boot :: tx where
  "tx_boot = cdtv_init_transmitter \<lparr>cdtv_ir_code = 0, tx_state = 0, tx_data = 0, OCR1A = 0,
     TCNT1 = 0, TCCR1B = 0, ir_output = False, SREG_I = True\<rparr>"

text \<open>
  A transmission of code \<open>0x004\<close> caught in flight: nine compare matches after it
  was armed, in the gap after the fourth pulse, at the instant the counter reaches
  \<open>OCR1A\<close>.
\<close>

definition mid_flight :: tx where
  "mid_flight = ((compare_match ^^ 9) (cdtv_send_code 0x004 tx_boot))\<lparr>TCNT1 := 800\<rparr>"

section \<open>PS/2 command writer (lines 92--165)\<close>

text \<open>
  What the writer touches: the external-interrupt mask \<open>EIMSK\<close>, the pending flag
  \<open>INTF0\<close> (writing a one to \<open>EIFR\<close> clears it), which pins the host drives low
  (\<open>pull_down\<close>) rather than leaving to the pull-up (\<open>weak_pullup\<close>), the time spent
  in \<open>delayMicroseconds\<close>, and the number of \<open>digitalRead\<close> calls made so far. The
  lines are outside the program: \<open>line n pin\<close> is the level (high is \<open>True\<close>) that the
  \<open>n\<close>-th \<open>digitalRead\<close> returns when it reads \<open>pin\<close>, an arbitrary function, so a
  device that never answers is one of them.
\<close>

record host =
  EIMSK :: u8
  INTF0_pending :: bool
  driven_low :: "nat \<Rightarrow> bool"
  waited_us :: nat
  reads :: nat

definition PS2CLKPIN :: nat where "PS2CLKPIN = 2"
definition PS2DATAPIN :: nat where "PS2DATAPIN = 4"

text \<open>Bit number of \<open>INT0\<close> in \<open>EIMSK\<close>, from the device header.\<close>

definition INT0 :: nat where "INT0 = 0"

definition weak_pullup :: "nat \<Rightarrow> host \<Rightarrow> host" where
  "weak_pullup pin h = h\<lparr>driven_low := (driven_low h)(pin := False)\<rparr>"

definition pull_down :: "nat \<Rightarrow> host \<Rightarrow> host" where
  "pull_down pin h = h\<lparr>driven_low := (driven_low h)(pin := True)\<rparr>"

definition delayMicroseconds :: "nat \<Rightarrow> host \<Rightarrow> host" where
  "delayMicroseconds n h = h\<lparr>waited_us := waited_us h + n\<rparr>"

lemma u16_pred_less: "(cnt :: u16) \<noteq> 0 \<Longrightarrow> unat (cnt - 1) < unat cnt"
  by (simp add: unat_minus_one unat_gt_0)

text \<open>
  \<open>while((digitalRead(pin) != state) && cnt--);\<close> with \<open>cnt\<close> starting at
  \<open>0xFFF\<close>: every test of the condition reads the pin once; when the level differs,
  \<open>cnt--\<close> is tested (its old value) and decremented. The result is the number of
  reads made so far.
\<close>

function await_loop :: "(nat \<Rightarrow> nat \<Rightarrow> bool) \<Rightarrow> nat \<Rightarrow> bool \<Rightarrow> u16 \<Rightarrow> nat \<Rightarrow> nat" where
  "await_loop line pin state cnt n =
     (if line n pin \<noteq> state \<and> cnt \<noteq> 0
      then await_loop line pin state (cnt - 1) (Suc n)
      else Suc n)"
  by pat_completeness auto
termination
  by (relation "measure (\<lambda>(line, pin, state, cnt, n). unat cnt)") (auto simp: u16_pred_less)

declare await_loop.simps [simp del]

definition await_pin_state :: "(nat \<Rightarrow> nat \<Rightarrow> bool) \<Rightarrow> nat \<Rightarrow> bool \<Rightarrow> host \<Rightarrow> host" where
  "await_pin_state line pin state h = h\<lparr>reads := await_loop line pin state 0xFFF (reads h)\<rparr>"

text \<open>
  The body of the \<open>for\<close> loop over the eight data bits (lines 128--139). The
  parameter \<open>data\<close> of the source is \<open>dat\<close> here, \<open>data\<close> being a field of the
  receive state.
\<close>

definition ps2_write_bit :: "(nat \<Rightarrow> nat \<Rightarrow> bool) \<Rightarrow> u8 \<times> u8 \<times> host \<Rightarrow> u8 \<times> u8 \<times> host" where
  "ps2_write_bit line st =
     (case st of (dat, parity, h) \<Rightarrow>
        let h1 = (if dat AND 0x01 \<noteq> 0 then weak_pullup PS2DATAPIN h
                  else pull_down PS2DATAPIN h);
            h2 = await_pin_state line PS2CLKPIN False h1;
            h3 = await_pin_state line PS2CLKPIN True h2
        in (drop_bit 1 dat, parity XOR (dat AND 0x01), h3))"

lemma u8_succ_less_8: "(i :: u8) < 8 \<Longrightarrow> 8 - unat (i + 1) < 8 - unat i"
proof -
  assume "i < 8"
  then have a: "unat i < 8" by (simp add: word_less_nat_alt)
  then have "unat (i + 1) = unat i + 1" by (simp add: unat_word_ariths)
  then show ?thesis using a by simp
qed

text \<open>\<open>for(i=0; i < 8; i++)\<close>, with the \<open>unsigned char\<close> counter.\<close>

function write_loop :: "(nat \<Rightarrow> nat \<Rightarrow> bool) \<Rightarrow> u8 \<Rightarrow> u8 \<times> u8 \<times> host \<Rightarrow> u8 \<times> u8 \<times> host" where
  "write_loop line i st =
     (if i < 8 then write_loop line (i + 1) (ps2_write_bit line st) else st)"
  by pat_completeness auto
termination
  by (relation "measure (\<lambda>(line, i, st). 8 - unat i)") (auto simp: u8_succ_less_8)

declare write_loop.simps [simp del]

definition ps2_write_byte :: "(nat \<Rightarrow> nat \<Rightarrow> bool) \<Rightarrow> u8 \<Rightarrow> host \<Rightarrow> host" where
  "ps2_write_byte line dat h0 =
     (let h = h0\<lparr>EIMSK := EIMSK h0 AND NOT (push_bit INT0 1)\<rparr>;
          h = pull_down PS2CLKPIN h;
          h = delayMicroseconds 200 h;
          h = pull_down PS2DATAPIN h;
          h = delayMicroseconds 10 h;
          h = weak_pullup PS2CLKPIN h;
          h = delayMicroseconds 10 h;
          h = await_pin_state line PS2CLKPIN False h;
          h = await_pin_state line PS2CLKPIN True h;
          (dat', parity, h) = write_loop line 0 (dat, 1, h);
          h = (if parity \<noteq> 0 then weak_pullup PS2DATAPIN h else pull_down PS2DATAPIN h);
          h = await_pin_state line PS2CLKPIN True h;
          h = await_pin_state line PS2CLKPIN False h;
          h = weak_pullup PS2DATAPIN h;
          h = await_pin_state line PS2CLKPIN True h;
          h = await_pin_state line PS2CLKPIN False h;
          h = await_pin_state line PS2CLKPIN True h;
          h = await_pin_state line PS2DATAPIN True h;
          h = h\<lparr>INTF0_pending := False\<rparr>
      in h\<lparr>EIMSK := EIMSK h OR push_bit INT0 1\<rparr>)"

section \<open>Properties of the PS/2 receive engine\<close>

lemma available_le_15: "unat (ps2_available s) \<le> 15"
proof -
  have "unat (ps2_available s) < 16" by (simp add: ps2_available_def unat_and_0xF)
  then show ?thesis by simp
qed

lemma isr_full_ring:
  assumes "(ps2_tail s + 1) AND 0xF = ps2_head s"
  shows "ps2_tail (ps2_recv_isr t p s) = ps2_tail s"
    and "ps2_head (ps2_recv_isr t p s) = ps2_head s"
    and "ps2_recv_buffer (ps2_recv_isr t p s) = ps2_recv_buffer s"
  using assms by (simp_all add: ps2_recv_isr_def Let_def)

subsection \<open>Receiving one frame\<close>

lemma bit_shift_in: "bit (shift_in p d) n \<longleftrightarrow> (n = 7 \<and> p) \<or> (n < 7 \<and> bit d (Suc n))"
proof -
  have b80: "bit (0x80 :: u8) n \<longleftrightarrow> n = 7"
  proof -
    have "(0x80 :: u8) = push_bit 7 1" by simp
    then show ?thesis by (simp only: bit_push_bit_iff bit_1_iff) auto
  qed
  have d: "bit (drop_bit 1 d) n \<longleftrightarrow> n < 7 \<and> bit d (Suc n)"
    using bit_imp_le_length [of d "Suc n"] by (auto simp: bit_drop_bit_eq)
  show ?thesis
  proof (cases p)
    case True
    then have "bit (shift_in p d) n \<longleftrightarrow> bit (drop_bit 1 d) n \<or> bit (0x80 :: u8) n"
      by (simp only: shift_in_def if_True bit_or_iff)
    also have "\<dots> \<longleftrightarrow> (n < 7 \<and> bit d (Suc n)) \<or> n = 7"
      by (simp only: d b80)
    finally show ?thesis using True by blast
  next
    case False
    then have "bit (shift_in p d) n \<longleftrightarrow> bit (drop_bit 1 d) n"
      by (simp only: shift_in_def if_False)
    also have "\<dots> \<longleftrightarrow> (n < 7 \<and> bit d (Suc n))"
      by (simp only: d)
    finally show ?thesis using False by blast
  qed
qed

lemma shift_in_byte:
  "shift_in (bit b 7) (shift_in (bit b 6) (shift_in (bit b 5) (shift_in (bit b 4)
     (shift_in (bit b 3) (shift_in (bit b 2) (shift_in (bit b 1) (shift_in (bit b 0) d))))))) = b"
proof (rule bit_word_eqI)
  fix n assume "n < LENGTH(8)"
  then have "n \<in> {0, 1, 2, 3, 4, 5, 6, 7}" by auto
  then show "bit (shift_in (bit b 7) (shift_in (bit b 6) (shift_in (bit b 5) (shift_in (bit b 4)
     (shift_in (bit b 3) (shift_in (bit b 2) (shift_in (bit b 1) (shift_in (bit b 0) d)))))))) n
      = bit b n"
    by (auto simp: bit_shift_in eval_nat_numeral)
qed

lemma shift_in_byte_Suc:
  "shift_in (bit b 7) (shift_in (bit b 6) (shift_in (bit b 5) (shift_in (bit b 4)
     (shift_in (bit b 3) (shift_in (bit b 2) (shift_in (bit b (Suc 0)) (shift_in (bit b 0) d))))))) = b"
  using shift_in_byte [of b d] by simp

lemma no_reset:
  fixes t t' :: u32
  assumes "t' - t \<le> 5"
  shows "\<not> (uint (ucast t' :: u8) - uint (ucast t :: u8) > 5)"
proof -
  define g where "g = t' - t"
  have t': "t' = t + g" by (simp add: g_def)
  have g5: "uint g \<le> 5" using assms unfolding g_def by (simp add: word_le_def)
  have g0: "0 \<le> uint g" by simp
  have a0: "0 \<le> uint t mod 256" by simp
  have "uint (ucast t' :: u8) = (uint t + uint g) mod 256"
    by (simp add: t' unsigned_ucast_eq take_bit_eq_mod uint_word_ariths mod_mod_cancel)
  moreover have "uint (ucast t :: u8) = uint t mod 256"
    by (simp add: unsigned_ucast_eq take_bit_eq_mod)
  moreover have "(uint t + uint g) mod 256 = (uint t mod 256 + uint g) mod 256"
    by (simp add: mod_add_left_eq)
  moreover have "(uint t mod 256 + uint g) mod 256 \<le> uint t mod 256 + uint g"
    using a0 g0 by (intro zmod_le_nonneg_dividend) simp
  ultimately show ?thesis using g5 by simp
qed

text \<open>An edge that does not complete a byte or a frame only shifts and counts.\<close>

lemma no_reset_simp:
  fixes t t' :: u32
  shows "t' - t \<le> 5 \<Longrightarrow> (5 < uint (ucast t' :: u8) - uint (ucast t :: u8)) = False"
  using no_reset [of t' t] by simp

lemma isr_first:
  assumes "bitcount s = 0"
  shows "ps2_recv_isr t p s = s\<lparr>bitcount := 1, data := shift_in p (data s), last_edge := ucast t\<rparr>"
  using assms by (simp add: ps2_recv_isr_def Let_def shift_in_def)

lemma isr_shift:
  assumes "\<not> 5 < uint (ucast t :: u8) - uint (last_edge s)"
    "bitcount s + 1 \<noteq> 9" "bitcount s + 1 \<noteq> 11"
  shows "ps2_recv_isr t p s =
    s\<lparr>bitcount := bitcount s + 1, data := shift_in p (data s), last_edge := ucast t\<rparr>"
  using assms by (simp add: ps2_recv_isr_def Let_def shift_in_def)

lemma isr_ninth:
  assumes "\<not> 5 < uint (ucast t :: u8) - uint (last_edge s)" "bitcount s = 8"
    "(ps2_tail s + 1) AND 0xF \<noteq> ps2_head s"
  shows "ps2_recv_isr t p s = s\<lparr>bitcount := 9, data := shift_in p (data s), last_edge := ucast t,
     ps2_recv_buffer := (ps2_recv_buffer s)[unat (ps2_tail s) := shift_in p (data s)],
     ps2_tail := (ps2_tail s + 1) AND 0xF\<rparr>"
  using assms by (simp add: ps2_recv_isr_def Let_def shift_in_def)

lemma isr_eleventh:
  assumes "\<not> 5 < uint (ucast t :: u8) - uint (last_edge s)" "bitcount s = 10"
  shows "ps2_recv_isr t p s = s\<lparr>bitcount := 0, data := shift_in p (data s), last_edge := ucast t\<rparr>"
  using assms by (simp add: ps2_recv_isr_def Let_def shift_in_def)

lemma frame_bits_eq: "frame_bits b = [False, bit b 0, bit b 1, bit b 2, bit b 3, bit b 4, bit b 5,
    bit b 6, bit b 7, parity_bit b, True]"
  by (simp add: frame_bits_def upt_rec eval_nat_numeral)

lemma recv_edges_Nil: "ps2_recv_edges [] s = s"
  by (simp add: ps2_recv_edges_def)

lemma recv_edges_Cons: "ps2_recv_edges ((t, p) # es) s = ps2_recv_edges es (ps2_recv_isr t p s)"
  by (simp add: ps2_recv_edges_def)

lemma frame_steps:
  assumes bc: "bitcount s = 0"
    and room: "(ps2_tail s + 1) AND 0xF \<noteq> ps2_head s"
    and g: "t2 - t1 \<le> 5" "t3 - t2 \<le> 5" "t4 - t3 \<le> 5" "t5 - t4 \<le> 5" "t6 - t5 \<le> 5"
      "t7 - t6 \<le> 5" "t8 - t7 \<le> 5" "t9 - t8 \<le> 5" "t10 - t9 \<le> 5" "t11 - t10 \<le> 5"
    and es: "es = zip [t1, t2, t3, t4, t5, t6, t7, t8, t9, t10, t11] (frame_bits b)"
  shows "ps2_recv_edges (take 8 es) s = s\<lparr>bitcount := 8,
           data := shift_in (bit b 6) (shift_in (bit b 5) (shift_in (bit b 4)
             (shift_in (bit b 3) (shift_in (bit b 2) (shift_in (bit b 1) (shift_in (bit b 0)
             (shift_in False (data s)))))))), last_edge := ucast t8\<rparr>"
    and "ps2_recv_edges (take 9 es) s = s\<lparr>bitcount := 9, data := b, last_edge := ucast t9,
           ps2_recv_buffer := (ps2_recv_buffer s)[unat (ps2_tail s) := b],
           ps2_tail := (ps2_tail s + 1) AND 0xF\<rparr>"
    and "ps2_recv_edges es s = s\<lparr>bitcount := 0,
           data := shift_in True (shift_in (parity_bit b) b), last_edge := ucast t11,
           ps2_recv_buffer := (ps2_recv_buffer s)[unat (ps2_tail s) := b],
           ps2_tail := (ps2_tail s + 1) AND 0xF\<rparr>"
  using bc g room unfolding es frame_bits_eq
  by (simp_all add: recv_edges_Cons recv_edges_Nil isr_first isr_shift isr_ninth isr_eleventh
       no_reset_simp shift_in_byte_Suc)

lemma and_0xF_diff_left:
  fixes x y :: u8
  shows "((x AND 0xF) - y) AND 0xF = (x - y) AND 0xF"
proof (rule word_uint_eqI)
  have d: "(16::int) dvd 256" by simp
  have "uint (((x AND 0xF) - y) AND 0xF) = (uint x mod 16 - uint y) mod 256 mod 16"
    by (simp only: uint_and_0xF uint_word_ariths) simp
  also have "\<dots> = (uint x mod 16 - uint y) mod 16"
    by (simp only: mod_mod_cancel [OF d])
  also have "\<dots> = (uint x - uint y) mod 16"
    by (rule mod_diff_left_eq)
  also have "\<dots> = (uint x - uint y) mod 256 mod 16"
    by (simp only: mod_mod_cancel [OF d])
  also have "\<dots> = uint ((x - y) AND 0xF)"
    by (simp only: uint_and_0xF uint_word_ariths) simp
  finally show "uint (((x AND 0xF) - y) AND 0xF) = uint ((x - y) AND 0xF)" .
qed

lemma index_eq_mod16:
  fixes x y :: u8
  assumes "x < 16" "y < 16" "(x - y) AND 0xF = 0"
  shows "x = y"
proof -
  have d: "(16::int) dvd 256" by simp
  have x: "uint x < 16" and y: "uint y < 16" using assms(1,2) by (simp_all add: word_less_def)
  have x0: "0 \<le> uint x" and y0: "0 \<le> uint y" by simp_all
  have "uint ((x - y) AND 0xF) = (uint x - uint y) mod 256 mod 16"
    by (simp only: uint_and_0xF uint_word_ariths) simp
  also have "\<dots> = (uint x - uint y) mod 16"
    by (simp only: mod_mod_cancel [OF d])
  finally have m: "(uint x - uint y) mod 16 = 0" using assms(3) by simp
  have "uint x = uint y"
  proof (cases "uint y \<le> uint x")
    case True
    then have "0 \<le> uint x - uint y" "uint x - uint y < 16"
      using x uint_ge_0 [of y] by linarith+
    then have "(uint x - uint y) mod 16 = uint x - uint y"
      by (rule mod_pos_pos_trivial)
    then show ?thesis using m by simp
  next
    case False
    have "(uint x - uint y) mod 16 = (uint x - uint y + 16) mod 16" by simp
    also have "\<dots> = uint x - uint y + 16"
    proof (rule mod_pos_pos_trivial)
      show "0 \<le> uint x - uint y + 16" using uint_ge_0 [of x] y by linarith
      show "uint x - uint y + 16 < 16" using False by linarith
    qed
    finally show ?thesis using m uint_ge_0 [of x] y by linarith
  qed
  then show ?thesis by (rule word_uint_eqI)
qed

lemma and_0xF_less: "(x :: u8) AND 0xF < 16"
proof -
  have "unat (x AND 0xF) < 16" by (simp add: unat_and_0xF)
  then show ?thesis by (simp add: word_less_nat_alt)
qed

lemma avail_inc:
  fixes h t :: u8
  assumes "h < 16" "(t + 1) AND 0xF \<noteq> h"
  shows "unat ((((t + 1) AND 0xF) - h) AND 0xF) = unat ((t - h) AND 0xF) + 1"
proof -
  let ?a = "((t + 1) AND 0xF) - h"
  have nz: "?a AND 0xF \<noteq> 0"
    using index_eq_mod16 [OF and_0xF_less assms(1)] assms(2) by blast
  have "(?a - 1) AND 0xF = (((t + 1) AND 0xF) - (h + 1)) AND 0xF" by (simp add: algebra_simps)
  also have "\<dots> = ((t + 1) - (h + 1)) AND 0xF" by (rule and_0xF_diff_left)
  also have "\<dots> = (t - h) AND 0xF" by simp
  finally have e: "(?a - 1) AND 0xF = (t - h) AND 0xF" .
  have "unat (?a AND 0xF) \<noteq> 0" using nz by (simp only: unsigned_eq_0_iff) simp
  then show ?thesis using avail_dec [OF nz] e by simp
qed

text \<open>
  Claim C1. For every byte \<open>b\<close>: starting with bit counter 0 and a ring that is not
  full, eleven edges carrying a well-formed frame of \<open>b\<close>, no two of them more than
  5 ms apart, leave the ring untouched for the first eight edges, store \<open>b\<close> in the
  slot at the old tail and advance the tail on the ninth edge, and after the eleventh
  edge the ring holds exactly one entry more, that entry is \<open>b\<close>, the head has not
  moved and the bit counter is 0 again.
\<close>

theorem frame_received:
  assumes bc: "bitcount s = 0"
    and ok: "ring_ok s"
    and room: "(ps2_tail s + 1) AND 0xF \<noteq> ps2_head s"
    and len: "length ts = 11"
    and gaps: "gaps_ok ts"
  shows "ps2_recv_buffer (ps2_recv_edges (take 8 (zip ts (frame_bits b))) s) = ps2_recv_buffer s \<and>
     ps2_tail (ps2_recv_edges (take 8 (zip ts (frame_bits b))) s) = ps2_tail s \<and>
     ps2_recv_buffer (ps2_recv_edges (take 9 (zip ts (frame_bits b))) s)
       = (ps2_recv_buffer s)[unat (ps2_tail s) := b] \<and>
     ps2_tail (ps2_recv_edges (take 9 (zip ts (frame_bits b))) s) = (ps2_tail s + 1) AND 0xF \<and>
     ps2_recv_buffer (ps2_recv_edges (zip ts (frame_bits b)) s)
       = (ps2_recv_buffer s)[unat (ps2_tail s) := b] \<and>
     ps2_recv_buffer (ps2_recv_edges (zip ts (frame_bits b)) s) ! unat (ps2_tail s) = b \<and>
     ps2_tail (ps2_recv_edges (zip ts (frame_bits b)) s) = (ps2_tail s + 1) AND 0xF \<and>
     ps2_head (ps2_recv_edges (zip ts (frame_bits b)) s) = ps2_head s \<and>
     unat (ps2_available (ps2_recv_edges (zip ts (frame_bits b)) s)) = unat (ps2_available s) + 1 \<and>
     bitcount (ps2_recv_edges (zip ts (frame_bits b)) s) = 0"
proof -
  from len obtain t1 t2 t3 t4 t5 t6 t7 t8 t9 t10 t11
    where ts: "ts = [t1, t2, t3, t4, t5, t6, t7, t8, t9, t10, t11]"
    by (auto simp: eval_nat_numeral length_Suc_conv)
  have g: "t2 - t1 \<le> 5" "t3 - t2 \<le> 5" "t4 - t3 \<le> 5" "t5 - t4 \<le> 5" "t6 - t5 \<le> 5"
      "t7 - t6 \<le> 5" "t8 - t7 \<le> 5" "t9 - t8 \<le> 5" "t10 - t9 \<le> 5" "t11 - t10 \<le> 5"
    using gaps by (simp_all add: ts)
  note st = frame_steps [OF bc room g, of "zip ts (frame_bits b)" b, unfolded ts, OF refl]
  have idx: "unat (ps2_tail s) < length (ps2_recv_buffer s)"
    using ok by (simp add: ring_ok_def word_less_nat_alt)
  have av: "unat ((((ps2_tail s + 1) AND 0xF) - ps2_head s) AND 0xF) = unat (ps2_available s) + 1"
    using avail_inc [of "ps2_head s" "ps2_tail s"] ok room
    by (simp add: ring_ok_def ps2_available_def)
  show ?thesis
    unfolding ts using idx av by (simp add: st ps2_available_def)
qed

theorem frame_received_witness:
  "bitcount ps2_init = 0 \<and> ring_ok ps2_init \<and>
   (ps2_tail ps2_init + 1) AND 0xF \<noteq> ps2_head ps2_init \<and>
   length [250, 251, 253, 255, 256, 258, 263, 264, 265, 266, 270 :: u32] = 11 \<and>
   gaps_ok [250, 251, 253, 255, 256, 258, 263, 264, 265, 266, 270] \<and>
   ps2_recv_buffer (ps2_recv_edges
      (zip [250, 251, 253, 255, 256, 258, 263, 264, 265, 266, 270] (frame_bits 0xA5)) ps2_init)
     ! unat (ps2_tail ps2_init) = 0xA5 \<and>
   unat (ps2_available (ps2_recv_edges
      (zip [250, 251, 253, 255, 256, 258, 263, 264, 265, 266, 270] (frame_bits 0xA5)) ps2_init))
     = unat (ps2_available ps2_init) + 1 \<and>
   bitcount (ps2_recv_edges
      (zip [250, 251, 253, 255, 256, 258, 263, 264, 265, 266, 270] (frame_bits 0xA5)) ps2_init) = 0"
proof -
  have h: "bitcount ps2_init = 0" "ring_ok ps2_init"
    "(ps2_tail ps2_init + 1) AND 0xF \<noteq> ps2_head ps2_init"
    "length [250, 251, 253, 255, 256, 258, 263, 264, 265, 266, 270 :: u32] = 11"
    "gaps_ok [250, 251, 253, 255, 256, 258, 263, 264, 265, 266, 270]"
    by (simp_all add: ps2_init_def ring_ok_def)
  show ?thesis using h frame_received [OF h, of "0xA5"] by blast
qed

subsection \<open>Overflow, resynchronisation, empty reads\<close>

text \<open>
  Claim C3. In every state (hence in every reachable one) \<open>ps2_available\<close> returns at
  most 15. When the ring is full, that is when the incremented tail equals the head, an
  invocation of the handler, in particular the one that completes a byte, leaves the
  tail, the head and every slot as they were, so the oldest entry (the slot at the
  head) survives and the byte just received is the one that is lost.
\<close>

theorem full_ring_keeps_oldest:
  "unat (ps2_available s) \<le> 15 \<and>
   ((ps2_tail s + 1) AND 0xF = ps2_head s \<longrightarrow>
      ps2_tail (ps2_recv_isr t p s) = ps2_tail s \<and>
      ps2_head (ps2_recv_isr t p s) = ps2_head s \<and>
      ps2_recv_buffer (ps2_recv_isr t p s) = ps2_recv_buffer s \<and>
      ps2_recv_buffer (ps2_recv_isr t p s) ! unat (ps2_head (ps2_recv_isr t p s)) =
        ps2_recv_buffer s ! unat (ps2_head s))"
  by (simp add: available_le_15 isr_full_ring)

theorem full_ring_keeps_oldest_witness:
  "(ps2_tail full_ring + 1) AND 0xF = ps2_head full_ring \<and>
   unat (ps2_available full_ring) = 15 \<and>
   bitcount (ps2_recv_isr 0 True full_ring) = 9 \<and>
   data (ps2_recv_isr 0 True full_ring) = 0xD5 \<and>
   ps2_tail (ps2_recv_isr 0 True full_ring) = 15 \<and>
   ps2_recv_buffer (ps2_recv_isr 0 True full_ring)
     = [1, 2, 3, 4, 5, 6, 7, 8, 9, 10, 11, 12, 13, 14, 15, 16] \<and>
   ps2_recv_buffer (ps2_recv_isr 0 True full_ring)
     ! unat (ps2_head (ps2_recv_isr 0 True full_ring)) = 1"
  using full_ring_keeps_oldest [of full_ring 0 True]
  by (simp add: full_ring_def ps2_recv_isr_def ps2_available_def Let_def)

text \<open>
  The resynchronisation test does fire when the low byte of \<open>millis()\<close> has advanced
  by more than 5 without wrapping.
\<close>

lemma resync_when_low_byte_advances:
  assumes "uint (last_edge s) + 5 < uint (ucast t :: u8)"
  shows "bitcount (ps2_recv_isr t p s) = 1"
  using assms by (simp add: ps2_recv_isr_def Let_def)

text \<open>
  Claim C4. The claim is that an edge arriving more than 5 ms after the previous one
  always restarts the bit counter. The handler keeps only the low byte of \<open>millis()\<close>
  and compares the promoted difference as a signed \<open>int\<close>: with the previous edge at
  250 ms and this one at 260 ms (10 ms later) the stored bytes are 250 and 4, the
  difference is -246, the test fails and the counter goes from 4 to 5 instead of
  restarting at 1.
\<close>

theorem resync_missed_when_millis_byte_wraps:
  "(5 :: u32) < 260 - 250 \<and>
   bitcount (ps2_recv_isr 250 True (ps2_init\<lparr>bitcount := 3, last_edge := 249\<rparr>)) = 4 \<and>
   last_edge (ps2_recv_isr 250 True (ps2_init\<lparr>bitcount := 3, last_edge := 249\<rparr>)) = 250 \<and>
   bitcount (ps2_recv_isr 260 True
     (ps2_recv_isr 250 True (ps2_init\<lparr>bitcount := 3, last_edge := 249\<rparr>))) = 5"
  by (simp add: ps2_recv_isr_def ps2_init_def Let_def)

text \<open>
  Claim C10. With an empty ring (head equal to tail) \<open>ps2_get_data\<close> returns 0 and
  changes nothing; a ring holding a received 0x00 byte returns the same value, so the
  return value alone does not tell the two apart.
\<close>

theorem get_data_empty:
  assumes "ps2_head s = ps2_tail s"
  shows "ps2_get_data s = (0, s) \<and>
         (\<exists>s'. ps2_tail s' \<noteq> ps2_head s' \<and> fst (ps2_get_data s') = fst (ps2_get_data s))"
proof -
  have e: "ps2_get_data s = (0, s)" using assms by (simp add: ps2_get_data_def)
  let ?s' = "ps2_init\<lparr>ps2_tail := 1\<rparr>"
  have "ps2_tail ?s' \<noteq> ps2_head ?s' \<and> fst (ps2_get_data ?s') = 0"
    by (simp add: ps2_get_data_def ps2_init_def)
  then show ?thesis using e by (metis fst_conv)
qed

theorem get_data_empty_witness:
  "ps2_head ps2_init = ps2_tail ps2_init \<and> ps2_get_data ps2_init = (0, ps2_init)"
  using get_data_empty [of ps2_init] by (simp add: ps2_init_def)

subsection \<open>Decoding mouse packets\<close>

lemma get_data_nonempty:
  assumes "ps2_available s \<noteq> 0"
  shows "ps2_get_data s =
    (ps2_recv_buffer s ! unat (ps2_head s), s\<lparr>ps2_head := (ps2_head s + 1) AND 0xF\<rparr>)"
  using available_nonempty [OF assms] by (simp add: ps2_get_data_def)

lemma loop_done: "\<not> 3 \<le> ps2_available s \<Longrightarrow> ps2_get_state_loop s = s"
  by (simp add: ps2_get_state_loop.simps)

lemma loop_step:
  "3 \<le> ps2_available s \<Longrightarrow> ps2_get_state_loop s = ps2_get_state_loop (ps2_get_state_body s)"
  by (subst ps2_get_state_loop.simps) simp

lemma available_ps2state_update [simp]:
  "ps2_available (s\<lparr>ps2state := v\<rparr>) = ps2_available s"
  by (simp add: ps2_available_def)

lemma body_misaligned:
  assumes "3 \<le> ps2_available s" "ps2_recv_buffer s ! unat (ps2_head s) AND 0xC \<noteq> 0x8"
  shows "ps2_get_state_body s = s\<lparr>ps2_head := (ps2_head s + 1) AND 0xF\<rparr>"
proof -
  have "ps2_available s \<noteq> 0" using unat_ge3 [OF assms(1)] by auto
  then show ?thesis using assms(2) by (simp add: ps2_get_state_body_def get_data_nonempty)
qed

lemma body_aligned:
  assumes a: "3 \<le> ps2_available s" and al: "ps2_recv_buffer s ! unat (ps2_head s) AND 0xC = 0x8"
  shows "ps2_get_state_body s =
    (let ps2status = ps2_recv_buffer s ! unat (ps2_head s);
         h1 = (ps2_head s + 1) AND 0xF;
         ps2dx = ps2_recv_buffer s ! unat h1;
         h2 = (h1 + 1) AND 0xF;
         ps2dy = ps2_recv_buffer s ! unat h2;
         st0 = push_bit 6 (ps2status AND 0x3);
         st1 = (if sint ps2dx > 0 then st0 OR 0x4
                else if sint ps2dx < 0 then st0 OR 0x8 else st0);
         st2 = (if sint ps2dy > 0 then st1 OR 0x20
                else if sint ps2dy < 0 then st1 OR 0x10 else st1)
     in s\<lparr>ps2_head := (h2 + 1) AND 0xF, ps2state := st2\<rparr>)"
proof -
  let ?s1 = "s\<lparr>ps2_head := (ps2_head s + 1) AND 0xF\<rparr>"
  let ?s2 = "?s1\<lparr>ps2_head := (ps2_head ?s1 + 1) AND 0xF\<rparr>"
  have a0: "3 \<le> unat (ps2_available s)" using a by (rule unat_ge3)
  then have n0: "ps2_available s \<noteq> 0" by auto
  have g0: "ps2_get_data s = (ps2_recv_buffer s ! unat (ps2_head s), ?s1)"
    using n0 by (rule get_data_nonempty)
  have "unat (ps2_available ?s1) = unat (ps2_available s) - 1"
    using available_get_data [OF n0] by (simp add: g0)
  then have u1: "2 \<le> unat (ps2_available ?s1)" using a0 by simp
  then have n1: "ps2_available ?s1 \<noteq> 0" by auto
  have g1: "ps2_get_data ?s1 = (ps2_recv_buffer s ! unat (ps2_head ?s1), ?s2)"
    using get_data_nonempty [OF n1] by simp
  have "unat (ps2_available ?s2) = unat (ps2_available ?s1) - 1"
    using available_get_data [OF n1] by (simp add: g1)
  then have n2: "ps2_available ?s2 \<noteq> 0" using u1 by auto
  have g2: "ps2_get_data ?s2 =
      (ps2_recv_buffer s ! unat (ps2_head ?s2), ?s2\<lparr>ps2_head := (ps2_head ?s2 + 1) AND 0xF\<rparr>)"
    using get_data_nonempty [OF n2] by simp
  note g1' = g1 [simplified] and g2' = g2 [simplified]
  show ?thesis
    using al by (simp add: ps2_get_state_body_def g0 g1' g2' Let_def)
qed

text \<open>
  Claim C5, as the code has it. With exactly one packet in the ring whose status byte
  has bits 2--3 equal to \<open>10\<close> and both button bits clear, \<open>dx = +5\<close> and
  \<open>dy = -3\<close>, \<open>ps2_get_state\<close> returns \<open>CDTV_CODE_MOUSE_RIGHT | CDTV_CODE_MOUSE_DOWN\<close>:
  the right and the down flags, neither up nor left, no button flag. A negative
  \<open>dy\<close> sets \<open>0x10\<close>, which the command table names \<open>MOUSE_DOWN\<close>.
\<close>

theorem packet_right_down:
  assumes av: "ps2_available s = 3"
    and st: "ps2_recv_buffer s ! unat (ps2_head s) = status"
    and al: "status AND 0xC = 0x8"
    and bt: "status AND 0x3 = 0"
    and dx: "sint (ps2_recv_buffer s ! unat ((ps2_head s + 1) AND 0xF)) = 5"
    and dy: "sint (ps2_recv_buffer s ! unat ((((ps2_head s + 1) AND 0xF) + 1) AND 0xF)) = - 3"
  shows "fst (ps2_get_state s) = CDTV_CODE_MOUSE_RIGHT OR CDTV_CODE_MOUSE_DOWN \<and>
         fst (ps2_get_state s) AND CDTV_CODE_MOUSE_UP = 0 \<and>
         fst (ps2_get_state s) AND CDTV_CODE_MOUSE_LEFT = 0 \<and>
         fst (ps2_get_state s) AND (CDTV_CODE_MOUSE_A OR CDTV_CODE_MOUSE_B) = 0 \<and>
         ps2_available (snd (ps2_get_state s)) = 0"
proof -
  let ?s0 = "s\<lparr>ps2state := ps2state s AND 0xC0\<rparr>"
  have a3: "3 \<le> ps2_available ?s0" using av by simp
  have al0: "ps2_recv_buffer ?s0 ! unat (ps2_head ?s0) AND 0xC = 0x8" using st al by simp
  have pb: "push_bit 6 status AND 192 = (0::u8)"
    using arg_cong [OF bt, of "push_bit 6"] by simp
  have b: "ps2state (ps2_get_state_body ?s0) = 0x14"
    using st dx dy pb by (simp add: body_aligned [OF a3 al0] Let_def)
  have "unat (ps2_available (ps2_get_state_body ?s0)) = 0"
    using available_body [OF a3] st al av by (simp add: get_data_nonempty)
  then have z: "ps2_available (ps2_get_state_body ?s0) = 0" by (simp only: unsigned_eq_0_iff)
  then have "ps2_get_state_loop ?s0 = ps2_get_state_body ?s0"
    using loop_step [OF a3] by (simp add: loop_done)
  then have "fst (ps2_get_state s) = 0x14 \<and> ps2_available (snd (ps2_get_state s)) = 0"
    using b z by (simp add: ps2_get_state_def Let_def)
  then show ?thesis by (simp add: cdtv_mouse_codes)
qed

theorem packet_right_down_witness:
  "ps2_available (ring_of [0x08, 0x05, 0xFD]) = 3 \<and>
   (0x08 :: u8) AND 0xC = 0x8 \<and> (0x08 :: u8) AND 0x3 = 0 \<and>
   sint (0x05 :: u8) = 5 \<and> sint (0xFD :: u8) = - 3 \<and>
   fst (ps2_get_state (ring_of [0x08, 0x05, 0xFD]))
     = CDTV_CODE_MOUSE_RIGHT OR CDTV_CODE_MOUSE_DOWN"
  using packet_right_down [of "ring_of [0x08, 0x05, 0xFD]" "0x08"]
  by (simp add: ring_of_def ps2_init_def ps2_available_def)

lemmas ps2_eval = ps2_get_state_def ps2_get_state_loop.simps ps2_get_state_body_def
  ps2_get_data_def ps2_available_def ring_of_def ps2_init_def Let_def

text \<open>
  Claim C5 as stated asks for the up flag. On the packet \<open>(0x08, 5, -3)\<close> the
  returned value is \<open>0x014\<close>: the up flag \<open>0x020\<close> is clear, the down flag is set.
\<close>

theorem packet_dy_negative_sets_down_not_up:
  "ps2_available (ring_of [0x08, 0x05, 0xFD]) = 3 \<and>
   fst (ps2_get_state (ring_of [0x08, 0x05, 0xFD])) = 0x014 \<and>
   fst (ps2_get_state (ring_of [0x08, 0x05, 0xFD])) AND CDTV_CODE_MOUSE_UP = 0 \<and>
   fst (ps2_get_state (ring_of [0x08, 0x05, 0xFD])) AND CDTV_CODE_MOUSE_DOWN \<noteq> 0"
  by (simp add: ps2_eval cdtv_mouse_codes)

text \<open>
  Claim C8, as the code has it. When the loop of \<open>ps2_get_state\<close> meets a first byte
  whose bits 2--3 are not \<open>10\<close>, that one byte is consumed (the head advances by
  one slot, so the loop cannot stall on it) and nothing else changes; the call returns
  exactly what it would return had the byte not been in the ring, so the byte adds no
  direction or button flag. The two bytes behind it stay in the ring and are examined
  next, the first of them as a status byte.
\<close>

theorem misaligned_byte_skipped:
  assumes "3 \<le> ps2_available s"
    and "ps2_recv_buffer s ! unat (ps2_head s) AND 0xC \<noteq> 0x8"
  shows "ps2_get_state_body s = s\<lparr>ps2_head := (ps2_head s + 1) AND 0xF\<rparr> \<and>
         unat (ps2_available (ps2_get_state_body s)) = unat (ps2_available s) - 1 \<and>
         ps2state (ps2_get_state_body s) = ps2state s \<and>
         ps2_get_state s = ps2_get_state (s\<lparr>ps2_head := (ps2_head s + 1) AND 0xF\<rparr>)"
proof -
  let ?s0 = "s\<lparr>ps2state := ps2state s AND 0xC0\<rparr>"
  have b: "ps2_get_state_body s = s\<lparr>ps2_head := (ps2_head s + 1) AND 0xF\<rparr>"
    using assms by (rule body_misaligned)
  have n: "ps2_available s \<noteq> 0" using unat_ge3 [OF assms(1)] by auto
  have a: "unat (ps2_available (ps2_get_state_body s)) = unat (ps2_available s) - 1"
    using available_body [OF assms(1)] assms(2) by (simp add: get_data_nonempty [OF n])
  have "ps2_get_state_body ?s0 = ?s0\<lparr>ps2_head := (ps2_head ?s0 + 1) AND 0xF\<rparr>"
    using assms by (intro body_misaligned) simp_all
  then have "ps2_get_state_loop ?s0 =
      ps2_get_state_loop (?s0\<lparr>ps2_head := (ps2_head ?s0 + 1) AND 0xF\<rparr>)"
    using loop_step [of ?s0] assms(1) by simp
  moreover have "?s0\<lparr>ps2_head := (ps2_head ?s0 + 1) AND 0xF\<rparr> =
      (s\<lparr>ps2_head := (ps2_head s + 1) AND 0xF\<rparr>)\<lparr>ps2state := ps2state s AND 0xC0\<rparr>"
    by simp
  ultimately have "ps2_get_state_loop ?s0 = ps2_get_state_loop
      ((s\<lparr>ps2_head := (ps2_head s + 1) AND 0xF\<rparr>)\<lparr>ps2state := ps2state s AND 0xC0\<rparr>)"
    by (rule trans [OF _ arg_cong])
  then have "ps2_get_state s = ps2_get_state (s\<lparr>ps2_head := (ps2_head s + 1) AND 0xF\<rparr>)"
    unfolding ps2_get_state_def by simp
  then show ?thesis using b a by simp
qed

theorem misaligned_byte_skipped_witness:
  "3 \<le> ps2_available (ring_of [0x00, 0x09, 0x05]) \<and>
   ps2_recv_buffer (ring_of [0x00, 0x09, 0x05]) ! unat (ps2_head (ring_of [0x00, 0x09, 0x05]))
     AND 0xC \<noteq> 0x8 \<and>
   ps2_get_state_body (ring_of [0x00, 0x09, 0x05]) = (ring_of [0x00, 0x09, 0x05])\<lparr>ps2_head := 1\<rparr> \<and>
   unat (ps2_available (ps2_get_state_body (ring_of [0x00, 0x09, 0x05]))) = 2"
  using misaligned_byte_skipped [of "ring_of [0x00, 0x09, 0x05]"]
  by (simp add: ring_of_def ps2_init_def ps2_available_def)

text \<open>
  Claim C8 as stated has the whole three-byte packet consumed and discarded. With
  \<open>(0x00, 0x09, 0x05)\<close> in the ring only the first byte is taken and two remain; with
  a fourth byte \<open>0x05\<close> behind them, the second and third byte of that packet are
  decoded as status and \<open>dx\<close> and the call returns \<open>0x064\<close> (button B, up, right).
\<close>

theorem misaligned_packet_not_consumed:
  "ps2_recv_buffer (ring_of [0x00, 0x09, 0x05]) ! unat (ps2_head (ring_of [0x00, 0x09, 0x05]))
     AND 0xC \<noteq> 0x8 \<and>
   ps2_available (ring_of [0x00, 0x09, 0x05]) = 3 \<and>
   ps2_available (snd (ps2_get_state (ring_of [0x00, 0x09, 0x05]))) = 2 \<and>
   ps2_available (ring_of [0x00, 0x09, 0x05, 0x05]) = 4 \<and>
   fst (ps2_get_state (ring_of [0x00, 0x09, 0x05, 0x05])) = 0x064 \<and>
   ps2_available (snd (ps2_get_state (ring_of [0x00, 0x09, 0x05, 0x05]))) = 0"
  by (simp add: ps2_eval)

section \<open>Properties of the transmit engine\<close>

lemma bit_test: "(drop_bit n (w :: u16) AND 1 \<noteq> 0) = bit w n"
  by (simp add: and_one_eq bit_iff_odd_drop_bit odd_iff_mod_2_eq_one)

lemma clear_cs11: "bit ((t :: u8) AND NOT (push_bit CS11 1)) n \<longleftrightarrow> bit t n \<and> n \<noteq> CS11"
  by (auto simp: bit_simps CS11_def dest: bit_imp_le_length)

lemma set_cs11: "bit ((t :: u8) OR push_bit CS11 1) n \<longleftrightarrow> bit t n \<or> n = CS11"
  by (auto simp: bit_simps CS11_def)

lemmas cs11_bits = set_cs11 clear_cs11 set_cs11 [simplified] clear_cs11 [simplified]

lemma cs_distinct: "CS10 \<noteq> CS11" "CS12 \<noteq> CS11"
  by (simp_all add: CS10_def CS11_def CS12_def)

lemma not_12_le_1: "\<not> (12 :: u8) \<le> 1"
  by (simp add: word_le_nat_alt)

lemma send_code_eq:
  "cdtv_send_code code s = s\<lparr>cdtv_ir_code := code, tx_state := ir_start, OCR1A := 18000,
      TCNT1 := 0, ir_output := True, TCCR1B := TCCR1B s OR push_bit CS11 1\<rparr>"
  by (simp add: cdtv_send_code_def cdtv_send_code_stmts_def run_stmts_def)

lemma send_repeat_eq:
  "cdtv_send_repeat s = s\<lparr>tx_state := ir_repeat, OCR1A := 18000,
      TCNT1 := 0, ir_output := True, TCCR1B := TCCR1B s OR push_bit CS11 1\<rparr>"
  by (simp add: cdtv_send_repeat_def cdtv_send_repeat_stmts_def run_stmts_def)

lemma isr_start:
  "tx_state s = 1 \<Longrightarrow> TIMER1_COMPA_vect s =
     s\<lparr>ir_output := False, tx_data := cdtv_ir_code s, OCR1A := 9000, tx_state := 2\<rparr>"
  by (simp add: TIMER1_COMPA_vect_def transmitstates)

lemma isr_end_pulse:
  "tx_state s = 50 \<Longrightarrow> TIMER1_COMPA_vect s =
     s\<lparr>ir_output := True, OCR1A := 800, tx_state := 51\<rparr>"
  by (simp add: TIMER1_COMPA_vect_def transmitstates)

lemma isr_stop:
  "tx_state s = 51 \<Longrightarrow> TIMER1_COMPA_vect s =
     s\<lparr>ir_output := False, TCCR1B := TCCR1B s AND NOT (push_bit CS11 1), tx_state := 0\<rparr>"
  by (simp add: TIMER1_COMPA_vect_def transmitstates)

lemma isr_repeat:
  "tx_state s = 52 \<Longrightarrow> TIMER1_COMPA_vect s =
     s\<lparr>ir_output := False, OCR1A := 4200, tx_state := 50\<rparr>"
  by (simp add: TIMER1_COMPA_vect_def transmitstates)

lemma isr_transmit_all:
  "\<forall>n \<in> set [2..<50]. tx_state s = of_nat n \<longrightarrow> TIMER1_COMPA_vect s =
     (if odd n
      then s\<lparr>ir_output := False, tx_data := invert_at n (tx_data s),
             OCR1A := (if bit (invert_at n (tx_data s)) (gap_index n) then 2400 else 800),
             tx_state := of_nat (Suc n)\<rparr>
      else s\<lparr>ir_output := True, OCR1A := 800, tx_state := of_nat (Suc n)\<rparr>)"
  by (simp add: upt_rec TIMER1_COMPA_vect_def transmitstates Let_def bit_test invert_at_def
      gap_index_def not_12_le_1 del: upt.simps)

lemma isr_transmit:
  assumes "tx_state s = of_nat n" "2 \<le> n" "n < 50"
  shows "TIMER1_COMPA_vect s =
     (if odd n
      then s\<lparr>ir_output := False, tx_data := invert_at n (tx_data s),
             OCR1A := (if bit (invert_at n (tx_data s)) (gap_index n) then 2400 else 800),
             tx_state := of_nat (Suc n)\<rparr>
      else s\<lparr>ir_output := True, OCR1A := 800, tx_state := of_nat (Suc n)\<rparr>)"
proof -
  have "n \<in> {2..<50}" using assms(2,3) by (simp only: atLeastLessThan_iff)
  then have "n \<in> set [2..<50]" by (simp only: set_upt)
  then show ?thesis using isr_transmit_all [of s] assms(1) by blast
qed

lemma running_armed: "timer_running (s\<lparr>TCCR1B := TCCR1B s OR push_bit CS11 1\<rparr>)"
  by (simp add: timer_running_def cs11_bits)

lemma stopped:
  "prescaler_ok s \<Longrightarrow> \<not> timer_running (s\<lparr>TCCR1B := TCCR1B s AND NOT (push_bit CS11 1)\<rparr>)"
  by (simp add: timer_running_def prescaler_ok_def cs11_bits)

lemma run_end:
  assumes p: "prescaler_ok s" and r: "timer_running s" and st: "tx_state s = 50"
  shows "timer1_run 2 s =
     Some ([(ir_output s, unat (OCR1A s - TCNT1 s)), (True, 800)],
       s\<lparr>TCNT1 := 0, OCR1A := 800, ir_output := False,
         TCCR1B := TCCR1B s AND NOT (push_bit CS11 1), tx_state := 0\<rparr>)"
proof -
  let ?s1 = "s\<lparr>TCNT1 := 0, ir_output := True, OCR1A := 800, tx_state := 51\<rparr>"
  let ?s2 = "s\<lparr>TCNT1 := 0, OCR1A := 800, ir_output := False,
         TCCR1B := TCCR1B s AND NOT (push_bit CS11 1), tx_state := 0\<rparr>"
  have s1: "compare_match s = ?s1"
    using st by (simp add: compare_match_def isr_end_pulse)
  have r1: "timer_running ?s1" using r by (simp add: timer_running_def)
  have s2: "compare_match ?s1 = ?s2"
    by (simp add: compare_match_def isr_stop)
  have r2: "\<not> timer_running ?s2"
    using stopped [OF p] by (simp add: timer_running_def)
  have "timer1_run 0 ?s2 = Some ([], ?s2)" using r2 by simp
  then have "timer1_run (Suc 0) ?s1 = Some ([(True, 800)], ?s2)"
    using r1 by (simp add: s2)
  then have "timer1_run (Suc (Suc 0)) s =
      Some ([(ir_output s, unat (OCR1A s - TCNT1 s)), (True, 800)], ?s2)"
    using r by (simp add: s1)
  then show ?thesis by (simp add: numeral_2_eq_2)
qed

lemma run_phases:
  assumes "prescaler_ok s" "timer_running s" "tx_state s = of_nat n" "2 \<le> n" "n + k = 50"
  shows "timer1_run (k + 2) s =
     Some ((ir_output s, unat (OCR1A s - TCNT1 s)) # phases k n (tx_data s) @ [(True, 800)],
       s\<lparr>TCNT1 := 0, OCR1A := 800, ir_output := False,
         TCCR1B := TCCR1B s AND NOT (push_bit CS11 1), tx_state := 0,
         tx_data := (if n \<le> 27 \<and> k \<noteq> 0 \<and> 27 < n + k then NOT (tx_data s) else tx_data s)\<rparr>)"
  using assms
proof (induction k arbitrary: s n)
  case 0
  then have st: "tx_state s = 50" by simp
  have e: "timer1_run (0 + 2) s = timer1_run 2 s" by (simp only: add_0)
  show ?case by (simp only: e run_end [OF "0.prems"(1,2) st]) simp
next
  case (Suc k)
  let ?s1 = "compare_match s"
  have n50: "n < 50" using Suc.prems(5) by simp
  have cm: "?s1 =
     (if odd n
      then s\<lparr>TCNT1 := 0, ir_output := False, tx_data := invert_at n (tx_data s),
             OCR1A := (if bit (invert_at n (tx_data s)) (gap_index n) then 2400 else 800),
             tx_state := of_nat (Suc n)\<rparr>
      else s\<lparr>TCNT1 := 0, ir_output := True, OCR1A := 800, tx_state := of_nat (Suc n)\<rparr>)"
    using isr_transmit [of "s\<lparr>TCNT1 := 0\<rparr>" n] Suc.prems(3,4) n50
    by (simp add: compare_match_def)
  have p1: "prescaler_ok ?s1" using Suc.prems(1) by (simp add: cm prescaler_ok_def)
  have r1: "timer_running ?s1" using Suc.prems(2) by (simp add: cm timer_running_def)
  have t1: "tx_state ?s1 = of_nat (Suc n)" by (simp add: cm)
  have ih: "timer1_run (k + 2) ?s1 =
     Some ((ir_output ?s1, unat (OCR1A ?s1 - TCNT1 ?s1)) # phases k (Suc n) (tx_data ?s1) @ [(True, 800)],
       ?s1\<lparr>TCNT1 := 0, OCR1A := 800, ir_output := False,
         TCCR1B := TCCR1B ?s1 AND NOT (push_bit CS11 1), tx_state := 0,
         tx_data := (if Suc n \<le> 27 \<and> k \<noteq> 0 \<and> 27 < Suc n + k then NOT (tx_data ?s1)
                     else tx_data ?s1)\<rparr>)"
    using Suc.IH [OF p1 r1 t1] Suc.prems(4,5) by simp
  have step: "timer1_run (Suc k + 2) s =
      (case timer1_run (k + 2) ?s1 of None \<Rightarrow> None
       | Some (tr, s') \<Rightarrow> Some ((ir_output s, unat (OCR1A s - TCNT1 s)) # tr, s'))"
    using Suc.prems(2) by simp
  show ?case
    unfolding step ih using Suc.prems(5)
    by (cases "odd n") (auto simp: cm invert_at_def)
qed

lemma phases_numeral:
  "phases (numeral k) n d =
     (if odd n
      then (False, if bit (invert_at n d) (gap_index n) then 2400 else 800)
             # phases (pred_numeral k) (Suc n) (invert_at n d)
      else (True, 800) # phases (pred_numeral k) (Suc n) d)"
  by (simp add: numeral_eq_Suc)

lemma code_bits_eq:
  "code_bits c = [bit c 0, bit c 1, bit c 2, bit c 3, bit c 4, bit c 5, bit c 6, bit c 7,
     bit c 8, bit c 9, bit c 10, bit c 11]"
  by (simp add: code_bits_def upt_rec eval_nat_numeral del: upt.simps)

lemma phases_frame:
  "(True, 18000) # (False, 9000) # phases 48 2 c @ [(True, 800)] = cdtv_frame c"
  by (simp add: phases_numeral cdtv_frame_def code_bits_eq encode_bit_def us_def
      ticks_per_us_def invert_at_def gap_index_def bit_not_iff)

lemma timer1_run_more:
  "timer1_run n s = Some r \<Longrightarrow> timer1_run (n + m) s = Some r"
proof (induction n arbitrary: s r)
  case 0
  then show ?case by (cases m) (simp_all split: if_splits)
next
  case (Suc n)
  show ?case
  proof (cases "timer_running s")
    case True
    with Suc.prems obtain tr s' where
      a: "timer1_run n (compare_match s) = Some (tr, s')"
      and r: "r = ((ir_output s, unat (OCR1A s - TCNT1 s)) # tr, s')"
      by (auto split: option.splits)
    have "timer1_run (n + m) (compare_match s) = Some (tr, s')" using a by (rule Suc.IH)
    then show ?thesis using True r by simp
  next
    case False
    with Suc.prems show ?thesis by simp
  qed
qed

lemma run_code:
  assumes "prescaler_ok s"
  shows "timer1_run 51 (cdtv_send_code c s) =
     Some (cdtv_frame c,
       s\<lparr>cdtv_ir_code := c, tx_state := 0, tx_data := NOT c, OCR1A := 800, TCNT1 := 0,
         ir_output := False,
         TCCR1B := (TCCR1B s OR push_bit CS11 1) AND NOT (push_bit CS11 1)\<rparr>)"
proof -
  let ?s0 = "cdtv_send_code c s"
  let ?s1 = "compare_match ?s0"
  have s1: "?s1 = s\<lparr>cdtv_ir_code := c, tx_state := 2, tx_data := c, OCR1A := 9000, TCNT1 := 0,
        ir_output := False, TCCR1B := TCCR1B s OR push_bit CS11 1\<rparr>"
    by (simp add: send_code_eq compare_match_def isr_start ir_start_def)
  have r0: "timer_running ?s0" by (simp add: send_code_eq timer_running_def cs11_bits)
  have p1: "prescaler_ok ?s1"
    using assms by (simp add: s1 prescaler_ok_def cs11_bits cs_distinct)
  have r1: "timer_running ?s1" by (simp add: s1 timer_running_def cs11_bits)
  have t1: "tx_state ?s1 = of_nat 2" by (simp add: s1)
  have "timer1_run (48 + 2) ?s1 =
     Some ((ir_output ?s1, unat (OCR1A ?s1 - TCNT1 ?s1)) # phases 48 2 (tx_data ?s1) @ [(True, 800)],
       ?s1\<lparr>TCNT1 := 0, OCR1A := 800, ir_output := False,
         TCCR1B := TCCR1B ?s1 AND NOT (push_bit CS11 1), tx_state := 0,
         tx_data := (if (2::nat) \<le> 27 \<and> (48::nat) \<noteq> 0 \<and> (27::nat) < 2 + 48 then NOT (tx_data ?s1)
                     else tx_data ?s1)\<rparr>)"
    using p1 r1 t1 by (rule run_phases) simp_all
  then have run1: "timer1_run 50 ?s1 =
     Some ((False, 9000) # phases 48 2 c @ [(True, 800)],
       s\<lparr>cdtv_ir_code := c, tx_state := 0, tx_data := NOT c, OCR1A := 800, TCNT1 := 0,
         ir_output := False,
         TCCR1B := (TCCR1B s OR push_bit CS11 1) AND NOT (push_bit CS11 1)\<rparr>)"
    by (simp add: s1)
  have "timer1_run (Suc 50) ?s0 =
     Some ((ir_output ?s0, unat (OCR1A ?s0 - TCNT1 ?s0)) # (False, 9000) # phases 48 2 c @ [(True, 800)],
       s\<lparr>cdtv_ir_code := c, tx_state := 0, tx_data := NOT c, OCR1A := 800, TCNT1 := 0,
         ir_output := False,
         TCCR1B := (TCCR1B s OR push_bit CS11 1) AND NOT (push_bit CS11 1)\<rparr>)"
    using r0 by (simp only: timer1_run.simps run1 if_True option.case prod.case)
  moreover have "ir_output ?s0" "unat (OCR1A ?s0 - TCNT1 ?s0) = 18000"
    by (simp_all add: send_code_eq)
  moreover have "Suc 50 = 51" by simp
  ultimately show ?thesis by (simp only: phases_frame)
qed

lemma run_repeat:
  assumes "prescaler_ok s"
  shows "timer1_run 3 (cdtv_send_repeat s) =
     Some (cdtv_repeat_frame,
       s\<lparr>tx_state := 0, OCR1A := 800, TCNT1 := 0, ir_output := False,
         TCCR1B := (TCCR1B s OR push_bit CS11 1) AND NOT (push_bit CS11 1)\<rparr>)"
proof -
  let ?s0 = "cdtv_send_repeat s"
  let ?s1 = "compare_match ?s0"
  have s1: "?s1 = s\<lparr>tx_state := 50, OCR1A := 4200, TCNT1 := 0,
        ir_output := False, TCCR1B := TCCR1B s OR push_bit CS11 1\<rparr>"
    by (simp add: send_repeat_eq compare_match_def isr_repeat transmitstates)
  have r0: "timer_running ?s0" by (simp add: send_repeat_eq timer_running_def cs11_bits)
  have p1: "prescaler_ok ?s1"
    using assms by (simp add: s1 prescaler_ok_def cs11_bits cs_distinct)
  have r1: "timer_running ?s1" by (simp add: s1 timer_running_def cs11_bits)
  have t1: "tx_state ?s1 = 50" by (simp add: s1)
  have run1: "timer1_run 2 ?s1 =
     Some ([(False, 4200), (True, 800)],
       s\<lparr>tx_state := 0, OCR1A := 800, TCNT1 := 0, ir_output := False,
         TCCR1B := (TCCR1B s OR push_bit CS11 1) AND NOT (push_bit CS11 1)\<rparr>)"
    by (simp only: run_end [OF p1 r1 t1]) (simp add: s1)
  have "timer1_run (Suc 2) ?s0 =
     Some ((ir_output ?s0, unat (OCR1A ?s0 - TCNT1 ?s0)) # [(False, 4200), (True, 800)],
       s\<lparr>tx_state := 0, OCR1A := 800, TCNT1 := 0, ir_output := False,
         TCCR1B := (TCCR1B s OR push_bit CS11 1) AND NOT (push_bit CS11 1)\<rparr>)"
    using r0 by (simp only: timer1_run.simps run1 if_True option.case prod.case)
  moreover have "ir_output ?s0" "unat (OCR1A ?s0 - TCNT1 ?s0) = 18000"
    by (simp_all add: send_repeat_eq)
  moreover have "Suc 2 = 3" by simp
  moreover have "cdtv_repeat_frame = [(True, 18000), (False, 4200), (True, 800)]"
    by (simp add: cdtv_repeat_frame_def us_def ticks_per_us_def)
  ultimately show ?thesis by (simp only:)
qed

lemma prescaler_ok_boot: "prescaler_ok tx_boot"
  by (simp add: tx_boot_def cdtv_init_transmitter_def prescaler_ok_def CS10_def CS12_def
      WGM12_def bit_simps)

lemma prescaler_ok_isr: "prescaler_ok s \<Longrightarrow> prescaler_ok (TIMER1_COMPA_vect s)"
  by (simp add: TIMER1_COMPA_vect_def prescaler_ok_def Let_def cs11_bits)

lemma prescaler_ok_send_code: "prescaler_ok s \<Longrightarrow> prescaler_ok (cdtv_send_code c s)"
  by (simp add: send_code_eq prescaler_ok_def cs11_bits cs_distinct)

lemma prescaler_ok_send_repeat: "prescaler_ok s \<Longrightarrow> prescaler_ok (cdtv_send_repeat s)"
  by (simp add: send_repeat_eq prescaler_ok_def cs11_bits cs_distinct)

lemma final_stopped:
  assumes "prescaler_ok s"
  shows "\<not> timer_running (s\<lparr>TCCR1B := (TCCR1B s OR push_bit CS11 1) AND NOT (push_bit CS11 1)\<rparr>)"
  using assms by (simp add: timer_running_def prescaler_ok_def cs11_bits cs_distinct)

lemma funpow_9: "(f ^^ 9) x = f (f (f (f (f (f (f (f (f x))))))))"
  by (simp add: eval_nat_numeral)

lemma mid_flight_eq:
  "mid_flight = \<lparr>cdtv_ir_code = 0x004, tx_state = 10, tx_data = 0x004, OCR1A = 800,
     TCNT1 = 800, TCCR1B = 0x0A, ir_output = False, SREG_I = True\<rparr>"
  by (simp add: mid_flight_def tx_boot_def cdtv_init_transmitter_def send_code_eq
      compare_match_def TIMER1_COMPA_vect_def transmitstates funpow_9 Let_def
      CS11_def WGM12_def)

subsection \<open>An interrupt inside the arming call\<close>

lemma preempted_no_irq:
  assumes "irq (run_stmts (take k fs) s) = run_stmts (take k fs) s"
  shows "preempted k fs s = run_stmts fs s"
proof -
  have "run_stmts (take k fs @ drop k fs) s = run_stmts (drop k fs) (run_stmts (take k fs) s)"
    unfolding run_stmts_def by (simp only: fold_append o_apply)
  then have "run_stmts fs s = run_stmts (drop k fs) (run_stmts (take k fs) s)"
    by (simp only: append_take_drop_id)
  then show ?thesis using assms by (simp add: preempted_def)
qed

lemma irq_cases:
  "irq s = (if SREG_I s \<and> timer_running s \<and> TCNT1 s = OCR1A s
            then TIMER1_COMPA_vect (s\<lparr>TCNT1 := 0\<rparr>) else s)"
  by (simp add: irq_def compare_match_def)

lemma isr_keeps_code: "cdtv_ir_code (TIMER1_COMPA_vect s) = cdtv_ir_code s"
  by (simp add: TIMER1_COMPA_vect_def Let_def)

lemma irq_keeps_code: "cdtv_ir_code (irq s) = cdtv_ir_code s"
  by (simp add: irq_cases isr_keeps_code)

lemma prescaler_ok_irq: "prescaler_ok s \<Longrightarrow> prescaler_ok (irq s)"
  using prescaler_ok_isr [of "s\<lparr>TCNT1 := 0\<rparr>"] by (simp add: irq_cases prescaler_ok_def)

lemma send_code_absorbs:
  "cdtv_ir_code x = c \<Longrightarrow>
   x\<lparr>tx_state := ir_start, OCR1A := 18000, TCNT1 := 0, ir_output := True,
     TCCR1B := TCCR1B x OR push_bit CS11 1\<rparr> = cdtv_send_code c x"
  by (simp add: send_code_eq)

lemma pre_code_0: "preempted 0 (cdtv_send_code_stmts c) s = cdtv_send_code c (irq s)"
  by (simp add: preempted_def cdtv_send_code_def run_stmts_def)

lemma pre_code_1:
  "preempted (Suc 0) (cdtv_send_code_stmts c) s = cdtv_send_code c (irq (s\<lparr>cdtv_ir_code := c\<rparr>))"
proof -
  let ?x = "irq (s\<lparr>cdtv_ir_code := c\<rparr>)"
  have "cdtv_ir_code ?x = c" by (simp add: irq_keeps_code)
  then have "cdtv_send_code c ?x = ?x\<lparr>tx_state := ir_start, OCR1A := 18000, TCNT1 := 0,
      ir_output := True, TCCR1B := TCCR1B ?x OR push_bit CS11 1\<rparr>"
    by (rule send_code_absorbs [symmetric])
  then show ?thesis
    by (simp add: preempted_def cdtv_send_code_stmts_def run_stmts_def)
qed

lemma pre_code_2:
  "preempted 2 (cdtv_send_code_stmts c) s =
     (if SREG_I s \<and> timer_running s \<and> TCNT1 s = OCR1A s
      then s\<lparr>cdtv_ir_code := c, tx_state := 2, tx_data := c, OCR1A := 18000, TCNT1 := 0,
             ir_output := True, TCCR1B := TCCR1B s OR push_bit CS11 1\<rparr>
      else cdtv_send_code c s)"
  by (auto simp: preempted_def cdtv_send_code_stmts_def run_stmts_def irq_cases isr_start
      ir_start_def send_code_eq timer_running_def numeral_2_eq_2)

lemma pre_code_3:
  "preempted 3 (cdtv_send_code_stmts c) s =
     (if SREG_I s \<and> timer_running s \<and> TCNT1 s = 18000
      then s\<lparr>cdtv_ir_code := c, tx_state := 2, tx_data := c, OCR1A := 9000, TCNT1 := 0,
             ir_output := True, TCCR1B := TCCR1B s OR push_bit CS11 1\<rparr>
      else cdtv_send_code c s)"
  by (auto simp: preempted_def cdtv_send_code_stmts_def run_stmts_def irq_cases isr_start
      ir_start_def send_code_eq timer_running_def numeral_3_eq_3)

lemma pre_code_ge4:
  assumes "4 \<le> k"
  shows "preempted k (cdtv_send_code_stmts c) s = cdtv_send_code c s"
proof -
  consider "k = 4" | "k = 5" | "6 \<le> k" using assms by arith
  then have "irq (run_stmts (take k (cdtv_send_code_stmts c)) s)
      = run_stmts (take k (cdtv_send_code_stmts c)) s"
  proof cases
    case 1
    then show ?thesis by (simp add: cdtv_send_code_stmts_def run_stmts_def irq_cases)
  next
    case 2
    then show ?thesis by (simp add: cdtv_send_code_stmts_def run_stmts_def irq_cases)
  next
    case 3
    then have "take k (cdtv_send_code_stmts c) = cdtv_send_code_stmts c"
      by (simp add: cdtv_send_code_stmts_def)
    then show ?thesis by (simp add: cdtv_send_code_stmts_def run_stmts_def irq_cases)
  qed
  then show ?thesis unfolding cdtv_send_code_def by (rule preempted_no_irq)
qed

lemma code_tail: "drop 2 (cdtv_frame c) = phases 48 2 c @ [(True, 800)]"
  using phases_frame [of c, symmetric] by simp

lemma run_after_start_consumed:
  assumes "prescaler_ok s"
  shows "timer1_run 51 (s\<lparr>cdtv_ir_code := c, tx_state := 2, tx_data := c, OCR1A := dur,
            TCNT1 := 0, ir_output := True, TCCR1B := TCCR1B s OR push_bit CS11 1\<rparr>) =
     Some ((True, unat dur) # drop 2 (cdtv_frame c),
       s\<lparr>cdtv_ir_code := c, tx_state := 0, tx_data := NOT c, OCR1A := 800, TCNT1 := 0,
         ir_output := False,
         TCCR1B := (TCCR1B s OR push_bit CS11 1) AND NOT (push_bit CS11 1)\<rparr>)"
proof -
  let ?r = "s\<lparr>cdtv_ir_code := c, tx_state := 2, tx_data := c, OCR1A := dur,
            TCNT1 := 0, ir_output := True, TCCR1B := TCCR1B s OR push_bit CS11 1\<rparr>"
  have p: "prescaler_ok ?r" using assms by (simp add: prescaler_ok_def cs11_bits cs_distinct)
  have r: "timer_running ?r" by (simp add: timer_running_def cs11_bits)
  have t: "tx_state ?r = of_nat 2" by simp
  have "timer1_run (48 + 2) ?r =
     Some ((ir_output ?r, unat (OCR1A ?r - TCNT1 ?r)) # phases 48 2 (tx_data ?r) @ [(True, 800)],
       ?r\<lparr>TCNT1 := 0, OCR1A := 800, ir_output := False,
         TCCR1B := TCCR1B ?r AND NOT (push_bit CS11 1), tx_state := 0,
         tx_data := (if (2::nat) \<le> 27 \<and> (48::nat) \<noteq> 0 \<and> (27::nat) < 2 + 48 then NOT (tx_data ?r)
                     else tx_data ?r)\<rparr>)"
    using p r t by (rule run_phases) simp_all
  then have "timer1_run 50 ?r =
     Some ((True, unat dur) # drop 2 (cdtv_frame c),
       s\<lparr>cdtv_ir_code := c, tx_state := 0, tx_data := NOT c, OCR1A := 800, TCNT1 := 0,
         ir_output := False,
         TCCR1B := (TCCR1B s OR push_bit CS11 1) AND NOT (push_bit CS11 1)\<rparr>)"
    by (simp add: code_tail)
  then show ?thesis using timer1_run_more [where n = 50 and m = 1] by simp
qed

lemma pre_repeat_0: "preempted 0 cdtv_send_repeat_stmts s = cdtv_send_repeat (irq s)"
  by (simp add: preempted_def cdtv_send_repeat_def run_stmts_def)

lemma pre_repeat_1:
  "preempted (Suc 0) cdtv_send_repeat_stmts s =
     (if SREG_I s \<and> timer_running s \<and> TCNT1 s = OCR1A s
      then s\<lparr>tx_state := 50, OCR1A := 18000, TCNT1 := 0, ir_output := True,
             TCCR1B := TCCR1B s OR push_bit CS11 1\<rparr>
      else cdtv_send_repeat s)"
  by (auto simp: preempted_def cdtv_send_repeat_stmts_def run_stmts_def irq_cases isr_repeat
      transmitstates send_repeat_eq timer_running_def)

lemma pre_repeat_2:
  "preempted 2 cdtv_send_repeat_stmts s =
     (if SREG_I s \<and> timer_running s \<and> TCNT1 s = 18000
      then s\<lparr>tx_state := 50, OCR1A := 4200, TCNT1 := 0, ir_output := True,
             TCCR1B := TCCR1B s OR push_bit CS11 1\<rparr>
      else cdtv_send_repeat s)"
  by (auto simp: preempted_def cdtv_send_repeat_stmts_def run_stmts_def irq_cases isr_repeat
      transmitstates send_repeat_eq timer_running_def numeral_2_eq_2)

lemma pre_repeat_ge3:
  assumes "3 \<le> k"
  shows "preempted k cdtv_send_repeat_stmts s = cdtv_send_repeat s"
proof -
  consider "k = 3" | "k = 4" | "5 \<le> k" using assms by arith
  then have "irq (run_stmts (take k cdtv_send_repeat_stmts) s)
      = run_stmts (take k cdtv_send_repeat_stmts) s"
  proof cases
    case 1
    then show ?thesis by (simp add: cdtv_send_repeat_stmts_def run_stmts_def irq_cases)
  next
    case 2
    then show ?thesis by (simp add: cdtv_send_repeat_stmts_def run_stmts_def irq_cases)
  next
    case 3
    then have "take k cdtv_send_repeat_stmts = cdtv_send_repeat_stmts"
      by (simp add: cdtv_send_repeat_stmts_def)
    then show ?thesis by (simp add: cdtv_send_repeat_stmts_def run_stmts_def irq_cases)
  qed
  then show ?thesis unfolding cdtv_send_repeat_def by (rule preempted_no_irq)
qed

lemma run_after_repeat_consumed:
  assumes "prescaler_ok s"
  shows "timer1_run 3 (s\<lparr>tx_state := 50, OCR1A := dur, TCNT1 := 0, ir_output := True,
            TCCR1B := TCCR1B s OR push_bit CS11 1\<rparr>) =
     Some ([(True, unat dur), (True, 800)],
       s\<lparr>tx_state := 0, OCR1A := 800, TCNT1 := 0, ir_output := False,
         TCCR1B := (TCCR1B s OR push_bit CS11 1) AND NOT (push_bit CS11 1)\<rparr>)"
proof -
  let ?r = "s\<lparr>tx_state := 50, OCR1A := dur, TCNT1 := 0, ir_output := True,
            TCCR1B := TCCR1B s OR push_bit CS11 1\<rparr>"
  have p: "prescaler_ok ?r" using assms by (simp add: prescaler_ok_def cs11_bits cs_distinct)
  have r: "timer_running ?r" by (simp add: timer_running_def cs11_bits)
  have t: "tx_state ?r = 50" by simp
  have "timer1_run 2 ?r =
     Some ([(True, unat dur), (True, 800)],
       s\<lparr>tx_state := 0, OCR1A := 800, TCNT1 := 0, ir_output := False,
         TCCR1B := (TCCR1B s OR push_bit CS11 1) AND NOT (push_bit CS11 1)\<rparr>)"
    by (simp only: run_end [OF p r t]) simp
  then show ?thesis using timer1_run_more [where n = 2 and m = 1] by simp
qed

text \<open>
  Claim C2. For every code \<open>c\<close> armed with \<open>cdtv_send_code\<close> while Timer1 is
  stopped, as it is whenever no transmission is under way, no interrupt can fall
  inside the call (whichever statement boundary is tried, the call is the undisturbed
  one), and the output line carries exactly the frame of the protocol: 9 ms of
  carrier, 4.5 ms of silence, the twelve low bits of \<open>c\<close> and then their
  complements, each as a 400 us pulse followed by 400 us of silence for a 0 and
  1200 us for a 1, and a final 400 us pulse. After the 51st compare match the state
  machine is idle, the carrier is off and the timer is stopped; any larger number of
  allowed compare matches gives the same run.
\<close>

theorem code_frame_emitted:
  assumes "\<not> timer_running s"
  shows "preempted k (cdtv_send_code_stmts c) s = cdtv_send_code c s \<and>
         (\<exists>s'. timer1_run (51 + m) (cdtv_send_code c s) = Some (cdtv_frame c, s') \<and>
            tx_state s' = ir_idle \<and> \<not> ir_output s' \<and> \<not> timer_running s')"
proof -
  have p: "prescaler_ok s" using assms by (simp add: timer_running_def prescaler_ok_def)
  have i: "irq x = x" if "TCCR1B x = TCCR1B s" for x
    using assms that by (simp add: irq_cases timer_running_def)
  consider "k = 0" | "k = 1" | "k = 2" | "k = 3" | "4 \<le> k" by arith
  then have e: "preempted k (cdtv_send_code_stmts c) s = cdtv_send_code c s"
  proof cases
    case 1
    then show ?thesis by (simp add: pre_code_0 i)
  next
    case 2
    then show ?thesis by (simp add: pre_code_1 i send_code_eq)
  next
    case 3
    then show ?thesis using assms by (simp add: pre_code_2)
  next
    case 4
    then show ?thesis using assms by (simp add: pre_code_3)
  next
    case 5
    then show ?thesis by (rule pre_code_ge4)
  qed
  let ?s' = "s\<lparr>cdtv_ir_code := c, tx_state := 0, tx_data := NOT c, OCR1A := 800, TCNT1 := 0,
         ir_output := False,
         TCCR1B := (TCCR1B s OR push_bit CS11 1) AND NOT (push_bit CS11 1)\<rparr>"
  have "timer1_run (51 + m) (cdtv_send_code c s) = Some (cdtv_frame c, ?s')"
    using run_code [OF p] by (rule timer1_run_more)
  moreover have "\<not> timer_running ?s'"
    using final_stopped [OF p] by (simp add: timer_running_def)
  moreover have "tx_state ?s' = ir_idle" "\<not> ir_output ?s'" by (simp_all add: ir_idle_def)
  ultimately show ?thesis using e by blast
qed

theorem code_frame_emitted_witness:
  "\<not> timer_running tx_boot \<and>
   preempted 2 (cdtv_send_code_stmts 0x004) tx_boot = cdtv_send_code 0x004 tx_boot \<and>
   (\<exists>s'. timer1_run 51 (cdtv_send_code 0x004 tx_boot) = Some (cdtv_frame 0x004, s') \<and>
          tx_state s' = ir_idle \<and> \<not> ir_output s' \<and> \<not> timer_running s')"
proof -
  have h: "\<not> timer_running tx_boot"
    by (simp add: tx_boot_def cdtv_init_transmitter_def timer_running_def CS10_def CS11_def
        CS12_def WGM12_def bit_simps)
  show ?thesis using code_frame_emitted [OF h, of 2 "0x004" 0] h by simp
qed

text \<open>
  With the timer stopped the same holds for \<open>cdtv_send_repeat\<close>: no interrupt can
  fall inside the call.
\<close>

lemma send_repeat_undisturbed_when_stopped:
  assumes "\<not> timer_running s"
  shows "preempted k cdtv_send_repeat_stmts s = cdtv_send_repeat s"
proof -
  have i: "irq x = x" if "TCCR1B x = TCCR1B s" for x
    using assms that by (simp add: irq_cases timer_running_def)
  consider "k = 0" | "k = 1" | "k = 2" | "3 \<le> k" by arith
  then show ?thesis
  proof cases
    case 1
    then show ?thesis by (simp add: pre_repeat_0 i)
  next
    case 2
    then show ?thesis using assms by (simp add: pre_repeat_1)
  next
    case 3
    then show ?thesis using assms by (simp add: pre_repeat_2)
  next
    case 4
    then show ?thesis by (rule pre_repeat_ge3)
  qed
qed

text \<open>
  Claim C6. A repeat armed with \<open>cdtv_send_repeat\<close> while the transmitter is idle
  puts out 9 ms of carrier, 2.1 ms of silence and one 400 us pulse; after the
  third compare match the state machine is idle, the carrier is off and the
  prescaler bit is cleared, so the timer is stopped and an interrupt request finds
  nothing to run.
\<close>

theorem repeat_frame_emitted:
  assumes "tx_state s = ir_idle" and "prescaler_ok s"
  shows "\<exists>s'. timer1_run (3 + m) (cdtv_send_repeat s) = Some (cdtv_repeat_frame, s') \<and>
           cdtv_repeat_frame = [(True, us 9000), (False, us 2100), (True, us 400)] \<and>
           tx_state s' = ir_idle \<and> \<not> ir_output s' \<and> \<not> bit (TCCR1B s') CS11 \<and>
           \<not> timer_running s' \<and> irq s' = s'"
proof -
  let ?s' = "s\<lparr>tx_state := 0, OCR1A := 800, TCNT1 := 0, ir_output := False,
         TCCR1B := (TCCR1B s OR push_bit CS11 1) AND NOT (push_bit CS11 1)\<rparr>"
  have "timer1_run (3 + m) (cdtv_send_repeat s) = Some (cdtv_repeat_frame, ?s')"
    using run_repeat [OF assms(2)] by (rule timer1_run_more)
  moreover have r: "\<not> timer_running ?s'"
    using final_stopped [OF assms(2)] by (simp add: timer_running_def)
  moreover have "irq ?s' = ?s'" using r by (simp add: irq_def)
  moreover have "\<not> bit (TCCR1B ?s') CS11" by (simp add: cs11_bits)
  moreover have "tx_state ?s' = ir_idle" "\<not> ir_output ?s'" by (simp_all add: ir_idle_def)
  ultimately show ?thesis by (simp add: cdtv_repeat_frame_def)
qed

theorem repeat_frame_emitted_witness:
  "tx_state tx_boot = ir_idle \<and> prescaler_ok tx_boot \<and>
   (\<exists>s'. timer1_run 3 (cdtv_send_repeat tx_boot)
            = Some ([(True, 18000), (False, 4200), (True, 800)], s') \<and>
          tx_state s' = ir_idle \<and> \<not> timer_running s')"
proof -
  have i: "tx_state tx_boot = ir_idle"
    by (simp add: tx_boot_def cdtv_init_transmitter_def ir_idle_def)
  show ?thesis
    using repeat_frame_emitted [OF i prescaler_ok_boot, of 0] i prescaler_ok_boot
    by (auto simp: us_def ticks_per_us_def)
qed

lemma run_stmts_keeps_sreg:
  assumes "\<forall>f \<in> set fs. \<forall>x. SREG_I (f x) = SREG_I x"
  shows "SREG_I (run_stmts fs s) = SREG_I s"
  using assms by (induction fs arbitrary: s) (simp_all add: run_stmts_def)

lemma code_stmts_keep_sreg:
  "SREG_I (run_stmts (take k (cdtv_send_code_stmts c)) s) = SREG_I s"
proof (rule run_stmts_keeps_sreg, rule ballI)
  fix f assume "f \<in> set (take k (cdtv_send_code_stmts c))"
  then have "f \<in> set (cdtv_send_code_stmts c)" by (rule in_set_takeD)
  then show "\<forall>x. SREG_I (f x) = SREG_I x" by (auto simp: cdtv_send_code_stmts_def)
qed

lemma repeat_stmts_keep_sreg:
  "SREG_I (run_stmts (take k cdtv_send_repeat_stmts) s) = SREG_I s"
proof (rule run_stmts_keeps_sreg, rule ballI)
  fix f assume "f \<in> set (take k cdtv_send_repeat_stmts)"
  then have "f \<in> set cdtv_send_repeat_stmts" by (rule in_set_takeD)
  then show "\<forall>x. SREG_I (f x) = SREG_I x" by (auto simp: cdtv_send_repeat_stmts_def)
qed

lemma us_values: "us 9000 = 18000" "us 4500 = 9000" "us 2100 = 4200" "us 400 = 800"
  by (simp_all add: us_def ticks_per_us_def)

lemma code_preempted_shape:
  assumes "prescaler_ok s"
  shows "(\<exists>y. prescaler_ok y \<and> preempted k (cdtv_send_code_stmts c) s = cdtv_send_code c y) \<or>
     ((k = 2 \<or> k = 3) \<and> irq_due (run_stmts (take k (cdtv_send_code_stmts c)) s) \<and>
      (\<exists>dur. (dur = 18000 \<or> dur = 9000) \<and> preempted k (cdtv_send_code_stmts c) s =
         s\<lparr>cdtv_ir_code := c, tx_state := 2, tx_data := c, OCR1A := dur, TCNT1 := 0,
           ir_output := True, TCCR1B := TCCR1B s OR push_bit CS11 1\<rparr>))"
proof -
  consider "k = 0" | "k = 1" | "k = 2" | "k = 3" | "4 \<le> k" by arith
  then show ?thesis
  proof cases
    case 1
    have "prescaler_ok (irq s)" using assms by (rule prescaler_ok_irq)
    then show ?thesis using 1 pre_code_0 by blast
  next
    case 2
    have "prescaler_ok (s\<lparr>cdtv_ir_code := c\<rparr>)" using assms by (simp add: prescaler_ok_def)
    then have "prescaler_ok (irq (s\<lparr>cdtv_ir_code := c\<rparr>))" by (rule prescaler_ok_irq)
    then show ?thesis using 2 pre_code_1 by (metis One_nat_def)
  next
    case 3
    have d: "irq_due (run_stmts (take 2 (cdtv_send_code_stmts c)) s)
        \<longleftrightarrow> SREG_I s \<and> timer_running s \<and> TCNT1 s = OCR1A s"
      by (simp add: irq_due_def cdtv_send_code_stmts_def run_stmts_def timer_running_def
          numeral_2_eq_2)
    show ?thesis
    proof (cases "SREG_I s \<and> timer_running s \<and> TCNT1 s = OCR1A s")
      case True
      then have "preempted 2 (cdtv_send_code_stmts c) s =
         s\<lparr>cdtv_ir_code := c, tx_state := 2, tx_data := c, OCR1A := 18000, TCNT1 := 0,
           ir_output := True, TCCR1B := TCCR1B s OR push_bit CS11 1\<rparr>"
        by (auto simp: pre_code_2)
      then show ?thesis using 3 d True by blast
    next
      case False
      then have "preempted 2 (cdtv_send_code_stmts c) s = cdtv_send_code c s"
        by (auto simp: pre_code_2)
      then show ?thesis using 3 assms by blast
    qed
  next
    case 4
    have d: "irq_due (run_stmts (take 3 (cdtv_send_code_stmts c)) s)
        \<longleftrightarrow> SREG_I s \<and> timer_running s \<and> TCNT1 s = 18000"
      by (simp add: irq_due_def cdtv_send_code_stmts_def run_stmts_def timer_running_def
          numeral_3_eq_3)
    show ?thesis
    proof (cases "SREG_I s \<and> timer_running s \<and> TCNT1 s = 18000")
      case True
      then have "preempted 3 (cdtv_send_code_stmts c) s =
         s\<lparr>cdtv_ir_code := c, tx_state := 2, tx_data := c, OCR1A := 9000, TCNT1 := 0,
           ir_output := True, TCCR1B := TCCR1B s OR push_bit CS11 1\<rparr>"
        by (auto simp: pre_code_3)
      then show ?thesis using 4 d True by blast
    next
      case False
      then have "preempted 3 (cdtv_send_code_stmts c) s = cdtv_send_code c s"
        by (auto simp: pre_code_3)
      then show ?thesis using 4 assms by blast
    qed
  next
    case 5
    then have "preempted k (cdtv_send_code_stmts c) s = cdtv_send_code c s"
      by (rule pre_code_ge4)
    then show ?thesis using assms by blast
  qed
qed

lemma code_preempted:
  assumes "prescaler_ok s"
  shows "TCNT1 (preempted k (cdtv_send_code_stmts c) s) = 0"
    and "\<exists>s'. tx_state s' = ir_idle \<and>
          (timer1_run 51 (preempted k (cdtv_send_code_stmts c) s) = Some (cdtv_frame c, s') \<or>
           timer1_run 51 (preempted k (cdtv_send_code_stmts c) s)
             = Some ((True, us 9000) # drop 2 (cdtv_frame c), s') \<or>
           timer1_run 51 (preempted k (cdtv_send_code_stmts c) s)
             = Some ((True, us 4500) # drop 2 (cdtv_frame c), s'))"
    and "(k \<noteq> 2 \<and> k \<noteq> 3) \<or> \<not> irq_due (run_stmts (take k (cdtv_send_code_stmts c)) s) \<Longrightarrow>
         tx_state (preempted k (cdtv_send_code_stmts c) s) = ir_start \<and>
         (\<exists>s'. timer1_run 51 (preempted k (cdtv_send_code_stmts c) s) = Some (cdtv_frame c, s') \<and>
                tx_state s' = ir_idle)"
proof -
  let ?P = "preempted k (cdtv_send_code_stmts c) s"
  let ?bad = "\<lambda>dur. s\<lparr>cdtv_ir_code := c, tx_state := 2, tx_data := c, OCR1A := dur, TCNT1 := 0,
           ir_output := True, TCCR1B := TCCR1B s OR push_bit CS11 1\<rparr>"
  note shape = code_preempted_shape [OF assms, of k c]
  have good: "tx_state (cdtv_send_code c y) = ir_start \<and> TCNT1 (cdtv_send_code c y) = 0 \<and>
      (\<exists>s'. timer1_run 51 (cdtv_send_code c y) = Some (cdtv_frame c, s') \<and> tx_state s' = ir_idle)"
    if "prescaler_ok y" for y
    using run_code [OF that, of c] by (simp add: send_code_eq ir_idle_def)
  have bad: "\<exists>s'. timer1_run 51 (?bad dur) = Some ((True, unat dur) # drop 2 (cdtv_frame c), s') \<and>
      tx_state s' = ir_idle" for dur
    using run_after_start_consumed [OF assms, where c = c and dur = dur] by (simp add: ir_idle_def)
  show "TCNT1 ?P = 0"
    using shape good by auto
  show "\<exists>s'. tx_state s' = ir_idle \<and>
          (timer1_run 51 ?P = Some (cdtv_frame c, s') \<or>
           timer1_run 51 ?P = Some ((True, us 9000) # drop 2 (cdtv_frame c), s') \<or>
           timer1_run 51 ?P = Some ((True, us 4500) # drop 2 (cdtv_frame c), s'))"
  proof -
    from shape consider
      (g) y where "prescaler_ok y" "?P = cdtv_send_code c y"
      | (b9) "?P = ?bad 18000" | (b45) "?P = ?bad 9000" by blast
    then show ?thesis
    proof cases
      case g
      then show ?thesis using good [of y] by auto
    next
      case b9
      then show ?thesis using bad [of 18000] by (auto simp: us_values)
    next
      case b45
      then show ?thesis using bad [of 9000] by (auto simp: us_values)
    qed
  qed
  show "tx_state ?P = ir_start \<and>
         (\<exists>s'. timer1_run 51 ?P = Some (cdtv_frame c, s') \<and> tx_state s' = ir_idle)"
    if "(k \<noteq> 2 \<and> k \<noteq> 3) \<or> \<not> irq_due (run_stmts (take k (cdtv_send_code_stmts c)) s)"
  proof -
    from shape that obtain y where "prescaler_ok y" "?P = cdtv_send_code c y" by blast
    then show ?thesis using good [of y] by simp
  qed
qed

lemma repeat_preempted_shape:
  assumes "prescaler_ok s"
  shows "(\<exists>y. prescaler_ok y \<and> preempted k cdtv_send_repeat_stmts s = cdtv_send_repeat y) \<or>
     ((k = 1 \<or> k = 2) \<and> irq_due (run_stmts (take k cdtv_send_repeat_stmts) s) \<and>
      (\<exists>dur. (dur = 18000 \<or> dur = 4200) \<and> preempted k cdtv_send_repeat_stmts s =
         s\<lparr>tx_state := 50, OCR1A := dur, TCNT1 := 0, ir_output := True,
           TCCR1B := TCCR1B s OR push_bit CS11 1\<rparr>))"
proof -
  consider "k = 0" | "k = 1" | "k = 2" | "3 \<le> k" by arith
  then show ?thesis
  proof cases
    case 1
    have "prescaler_ok (irq s)" using assms by (rule prescaler_ok_irq)
    then show ?thesis using 1 pre_repeat_0 by blast
  next
    case 2
    have d: "irq_due (run_stmts (take 1 cdtv_send_repeat_stmts) s)
        \<longleftrightarrow> SREG_I s \<and> timer_running s \<and> TCNT1 s = OCR1A s"
      by (simp add: irq_due_def cdtv_send_repeat_stmts_def run_stmts_def timer_running_def)
    show ?thesis
    proof (cases "SREG_I s \<and> timer_running s \<and> TCNT1 s = OCR1A s")
      case True
      then have "preempted (Suc 0) cdtv_send_repeat_stmts s =
         s\<lparr>tx_state := 50, OCR1A := 18000, TCNT1 := 0, ir_output := True,
           TCCR1B := TCCR1B s OR push_bit CS11 1\<rparr>"
        by (auto simp: pre_repeat_1)
      then show ?thesis using 2 d True by (metis One_nat_def)
    next
      case False
      then have "preempted (Suc 0) cdtv_send_repeat_stmts s = cdtv_send_repeat s"
        by (auto simp: pre_repeat_1)
      then show ?thesis using 2 assms by (metis One_nat_def)
    qed
  next
    case 3
    have d: "irq_due (run_stmts (take 2 cdtv_send_repeat_stmts) s)
        \<longleftrightarrow> SREG_I s \<and> timer_running s \<and> TCNT1 s = 18000"
      by (simp add: irq_due_def cdtv_send_repeat_stmts_def run_stmts_def timer_running_def
          numeral_2_eq_2)
    show ?thesis
    proof (cases "SREG_I s \<and> timer_running s \<and> TCNT1 s = 18000")
      case True
      then have "preempted 2 cdtv_send_repeat_stmts s =
         s\<lparr>tx_state := 50, OCR1A := 4200, TCNT1 := 0, ir_output := True,
           TCCR1B := TCCR1B s OR push_bit CS11 1\<rparr>"
        by (auto simp: pre_repeat_2)
      then show ?thesis using 3 d True by blast
    next
      case False
      then have "preempted 2 cdtv_send_repeat_stmts s = cdtv_send_repeat s"
        by (auto simp: pre_repeat_2)
      then show ?thesis using 3 assms by blast
    qed
  next
    case 4
    then have "preempted k cdtv_send_repeat_stmts s = cdtv_send_repeat s"
      by (rule pre_repeat_ge3)
    then show ?thesis using assms by blast
  qed
qed

lemma repeat_preempted:
  assumes "prescaler_ok s"
  shows "TCNT1 (preempted k cdtv_send_repeat_stmts s) = 0"
    and "\<exists>s'. tx_state s' = ir_idle \<and>
          (timer1_run 3 (preempted k cdtv_send_repeat_stmts s) = Some (cdtv_repeat_frame, s') \<or>
           timer1_run 3 (preempted k cdtv_send_repeat_stmts s)
             = Some ([(True, us 9000), (True, us 400)], s') \<or>
           timer1_run 3 (preempted k cdtv_send_repeat_stmts s)
             = Some ([(True, us 2100), (True, us 400)], s'))"
    and "(k \<noteq> 1 \<and> k \<noteq> 2) \<or> \<not> irq_due (run_stmts (take k cdtv_send_repeat_stmts) s) \<Longrightarrow>
         tx_state (preempted k cdtv_send_repeat_stmts s) = ir_repeat \<and>
         (\<exists>s'. timer1_run 3 (preempted k cdtv_send_repeat_stmts s) = Some (cdtv_repeat_frame, s') \<and>
                tx_state s' = ir_idle)"
proof -
  let ?P = "preempted k cdtv_send_repeat_stmts s"
  let ?bad = "\<lambda>dur. s\<lparr>tx_state := 50, OCR1A := dur, TCNT1 := 0, ir_output := True,
           TCCR1B := TCCR1B s OR push_bit CS11 1\<rparr>"
  note shape = repeat_preempted_shape [OF assms, of k]
  have good: "tx_state (cdtv_send_repeat y) = ir_repeat \<and> TCNT1 (cdtv_send_repeat y) = 0 \<and>
      (\<exists>s'. timer1_run 3 (cdtv_send_repeat y) = Some (cdtv_repeat_frame, s') \<and> tx_state s' = ir_idle)"
    if "prescaler_ok y" for y
    using run_repeat [OF that] by (simp add: send_repeat_eq ir_idle_def)
  have bad: "\<exists>s'. timer1_run 3 (?bad dur) = Some ([(True, unat dur), (True, 800)], s') \<and>
      tx_state s' = ir_idle" for dur
    using run_after_repeat_consumed [OF assms, where dur = dur] by (simp add: ir_idle_def)
  show "TCNT1 ?P = 0"
    using shape good by auto
  show "\<exists>s'. tx_state s' = ir_idle \<and>
          (timer1_run 3 ?P = Some (cdtv_repeat_frame, s') \<or>
           timer1_run 3 ?P = Some ([(True, us 9000), (True, us 400)], s') \<or>
           timer1_run 3 ?P = Some ([(True, us 2100), (True, us 400)], s'))"
  proof -
    from shape consider
      (g) y where "prescaler_ok y" "?P = cdtv_send_repeat y"
      | (b9) "?P = ?bad 18000" | (b21) "?P = ?bad 4200" by blast
    then show ?thesis
    proof cases
      case g
      then show ?thesis using good [of y] by auto
    next
      case b9
      then show ?thesis using bad [of 18000] by (auto simp: us_values)
    next
      case b21
      then show ?thesis using bad [of 4200] by (auto simp: us_values)
    qed
  qed
  show "tx_state ?P = ir_repeat \<and>
         (\<exists>s'. timer1_run 3 ?P = Some (cdtv_repeat_frame, s') \<and> tx_state s' = ir_idle)"
    if "(k \<noteq> 1 \<and> k \<noteq> 2) \<or> \<not> irq_due (run_stmts (take k cdtv_send_repeat_stmts) s)"
  proof -
    from shape that obtain y where "prescaler_ok y" "?P = cdtv_send_repeat y" by blast
    then show ?thesis using good [of y] by simp
  qed
qed

text \<open>
  Claim C7, as the code has it. Neither arming function disables interrupts: the
  interrupt flag is what it was at every statement boundary of the call. With the
  handler serviced at any one boundary \<open>k\<close> of a call made in any state, in
  particular in the middle of a transmission, the call returns with the timer counter
  at 0 and the old frame is replaced: what the line carries from then on is the new
  frame, or the new frame with its first two segments (the 9 ms burst and the pause)
  replaced by a single burst of 9 ms or of 4.5 ms (for a repeat: of 9 ms or of
  2.1 ms), so every data bit sent is a bit of the new code and nothing of the old
  request is mixed in. When the handler is not serviced between the write of
  \<open>tx_state\<close> and the write of \<open>TCNT1\<close>, the call returns in the start (or repeat)
  state and the line carries exactly the new frame.
\<close>

theorem arming_replaces_frame:
  assumes "prescaler_ok s"
  shows "SREG_I (run_stmts (take k (cdtv_send_code_stmts c)) s) = SREG_I s \<and>
     TCNT1 (preempted k (cdtv_send_code_stmts c) s) = 0 \<and>
     (\<exists>s'. tx_state s' = ir_idle \<and>
        (timer1_run 51 (preempted k (cdtv_send_code_stmts c) s) = Some (cdtv_frame c, s') \<or>
         timer1_run 51 (preempted k (cdtv_send_code_stmts c) s)
           = Some ((True, us 9000) # drop 2 (cdtv_frame c), s') \<or>
         timer1_run 51 (preempted k (cdtv_send_code_stmts c) s)
           = Some ((True, us 4500) # drop 2 (cdtv_frame c), s'))) \<and>
     ((k \<noteq> 2 \<and> k \<noteq> 3) \<or> \<not> irq_due (run_stmts (take k (cdtv_send_code_stmts c)) s) \<longrightarrow>
        tx_state (preempted k (cdtv_send_code_stmts c) s) = ir_start \<and>
        (\<exists>s'. timer1_run 51 (preempted k (cdtv_send_code_stmts c) s) = Some (cdtv_frame c, s') \<and>
               tx_state s' = ir_idle)) \<and>
     SREG_I (run_stmts (take k cdtv_send_repeat_stmts) s) = SREG_I s \<and>
     TCNT1 (preempted k cdtv_send_repeat_stmts s) = 0 \<and>
     (\<exists>s'. tx_state s' = ir_idle \<and>
        (timer1_run 3 (preempted k cdtv_send_repeat_stmts s) = Some (cdtv_repeat_frame, s') \<or>
         timer1_run 3 (preempted k cdtv_send_repeat_stmts s)
           = Some ([(True, us 9000), (True, us 400)], s') \<or>
         timer1_run 3 (preempted k cdtv_send_repeat_stmts s)
           = Some ([(True, us 2100), (True, us 400)], s'))) \<and>
     ((k \<noteq> 1 \<and> k \<noteq> 2) \<or> \<not> irq_due (run_stmts (take k cdtv_send_repeat_stmts) s) \<longrightarrow>
        tx_state (preempted k cdtv_send_repeat_stmts s) = ir_repeat \<and>
        (\<exists>s'. timer1_run 3 (preempted k cdtv_send_repeat_stmts s) = Some (cdtv_repeat_frame, s') \<and>
               tx_state s' = ir_idle))"
proof -
  note c = code_preempted [OF assms, where k = k and c = c]
  note r = repeat_preempted [OF assms, where k = k]
  have ci: "(k \<noteq> 2 \<and> k \<noteq> 3) \<or> \<not> irq_due (run_stmts (take k (cdtv_send_code_stmts c)) s) \<longrightarrow>
        tx_state (preempted k (cdtv_send_code_stmts c) s) = ir_start \<and>
        (\<exists>s'. timer1_run 51 (preempted k (cdtv_send_code_stmts c) s) = Some (cdtv_frame c, s') \<and>
               tx_state s' = ir_idle)"
    by (rule impI) (rule c(3))
  have ri: "(k \<noteq> 1 \<and> k \<noteq> 2) \<or> \<not> irq_due (run_stmts (take k cdtv_send_repeat_stmts) s) \<longrightarrow>
        tx_state (preempted k cdtv_send_repeat_stmts s) = ir_repeat \<and>
        (\<exists>s'. timer1_run 3 (preempted k cdtv_send_repeat_stmts s) = Some (cdtv_repeat_frame, s') \<and>
               tx_state s' = ir_idle)"
    by (rule impI) (rule r(3))
  show ?thesis
    by (intro conjI)
      (rule code_stmts_keep_sreg, rule c(1), rule c(2), rule ci,
       rule repeat_stmts_keep_sreg, rule r(1), rule r(2), rule ri)
qed

theorem arming_replaces_frame_witness:
  "prescaler_ok mid_flight \<and> tx_state mid_flight = 10 \<and> tx_data mid_flight = 0x004 \<and>
   irq_due (run_stmts (take 1 (cdtv_send_code_stmts 0x008)) mid_flight) \<and>
   TCNT1 (preempted 1 (cdtv_send_code_stmts 0x008) mid_flight) = 0 \<and>
   tx_state (preempted 1 (cdtv_send_code_stmts 0x008) mid_flight) = ir_start \<and>
   (\<exists>s'. timer1_run 51 (preempted 1 (cdtv_send_code_stmts 0x008) mid_flight)
            = Some (cdtv_frame 0x008, s') \<and> tx_state s' = ir_idle) \<and>
   irq_due (run_stmts (take 0 cdtv_send_repeat_stmts) mid_flight) \<and>
   tx_state (preempted 0 cdtv_send_repeat_stmts mid_flight) = ir_repeat \<and>
   (\<exists>s'. timer1_run 3 (preempted 0 cdtv_send_repeat_stmts mid_flight)
            = Some (cdtv_repeat_frame, s') \<and> tx_state s' = ir_idle)"
proof -
  have p: "prescaler_ok mid_flight"
    by (simp add: mid_flight_eq prescaler_ok_def CS10_def CS12_def bit_simps)
  have d: "irq_due (run_stmts (take 1 (cdtv_send_code_stmts 0x008)) mid_flight)"
    "irq_due (run_stmts (take 0 cdtv_send_repeat_stmts) mid_flight)"
    by (simp_all add: mid_flight_eq irq_due_def timer_running_def cdtv_send_code_stmts_def
        run_stmts_def CS10_def CS11_def CS12_def bit_simps)
  have m: "tx_state mid_flight = 10" "tx_data mid_flight = 0x004"
    by (simp_all add: mid_flight_eq)
  show ?thesis
    using arming_replaces_frame [OF p, of 1 "0x008"] arming_replaces_frame [OF p, of 0 "0x008"]
      p d m by simp
qed

text \<open>
  Claim C7 as stated has the reset happen with interrupts disabled. They are not:
  in the transmission caught in flight, interrupts are enabled at the boundary
  after \<open>tx_state=ir_start\<close>, the compare match is serviced there, the handler
  consumes the start state, and when \<open>cdtv_send_code\<close> returns the phase is
  \<open>ir_transmit\<close>, not \<open>ir_start\<close>: the 9 ms of carrier are followed by the first
  data pulse, without the 4.5 ms pause.
\<close>

theorem arming_not_atomic:
  "tx_state mid_flight = 10 \<and> timer_running mid_flight \<and>
   SREG_I (run_stmts (take 2 (cdtv_send_code_stmts 0x008)) mid_flight) \<and>
   tx_state (preempted 2 (cdtv_send_code_stmts 0x008) mid_flight) = ir_transmit \<and>
   tx_state (preempted 2 (cdtv_send_code_stmts 0x008) mid_flight) \<noteq> ir_start \<and>
   ir_output (preempted 2 (cdtv_send_code_stmts 0x008) mid_flight) \<and>
   OCR1A (preempted 2 (cdtv_send_code_stmts 0x008) mid_flight) = 18000 \<and>
   ir_output (compare_match (preempted 2 (cdtv_send_code_stmts 0x008) mid_flight)) \<and>
   OCR1A (compare_match (preempted 2 (cdtv_send_code_stmts 0x008) mid_flight)) = 800"
  by (simp add: mid_flight_eq preempted_def run_stmts_def cdtv_send_code_stmts_def irq_def
      timer_running_def compare_match_def TIMER1_COMPA_vect_def transmitstates CS10_def
      CS11_def CS12_def bit_simps)

section \<open>Properties of the command writer\<close>

lemma await_loop_bounds:
  "n < await_loop line pin state cnt n \<and> await_loop line pin state cnt n \<le> n + unat cnt + 1"
proof (induction line pin state cnt n rule: await_loop.induct)
  case (1 line pin state cnt n)
  show ?case
  proof (cases "line n pin \<noteq> state \<and> cnt \<noteq> 0")
    case True
    then have "unat (cnt - 1) < unat cnt" by (simp add: u16_pred_less)
    then show ?thesis
      using "1.IH" [OF True] True by (subst (1 2) await_loop.simps) simp
  next
    case False
    then show ?thesis by (subst (1 2) await_loop.simps) auto
  qed
qed

lemma await_loop_never:
  assumes "\<forall>m. line m pin \<noteq> state"
  shows "await_loop line pin state cnt n = n + unat cnt + 1"
proof (induction "unat cnt" arbitrary: cnt n)
  case 0
  then have "cnt = 0" by (simp add: unat_eq_0)
  then show ?case by (subst await_loop.simps) simp
next
  case (Suc k)
  then have nz: "cnt \<noteq> 0" by auto
  then have u: "unat (cnt - 1) = k" using Suc.hyps(2) by (simp add: unat_minus_one)
  have "await_loop line pin state cnt n = await_loop line pin state (cnt - 1) (Suc n)"
    using assms nz by (subst await_loop.simps) simp
  also have "\<dots> = Suc n + unat (cnt - 1) + 1" using u by (intro Suc.hyps(1)) simp
  finally show ?case using u Suc.hyps(2) by simp
qed

lemma reads_await:
  "reads h < reads (await_pin_state line pin state h) \<and>
   reads (await_pin_state line pin state h) \<le> reads h + 4096"
  using await_loop_bounds [of "reads h" line pin state "0xFFF"]
  by (simp add: await_pin_state_def)

lemma reads_pin [simp]:
  "reads (weak_pullup pin h) = reads h" "reads (pull_down pin h) = reads h"
  "reads (delayMicroseconds n h) = reads h"
  by (simp_all add: weak_pullup_def pull_down_def delayMicroseconds_def)

lemma reads_write_bit:
  "reads (snd (snd (ps2_write_bit line st))) \<le> reads (snd (snd st)) + 8192"
proof -
  obtain d p h where st: "st = (d, p, h)" by (cases st) auto
  let ?h1 = "if d AND 0x01 \<noteq> 0 then weak_pullup PS2DATAPIN h else pull_down PS2DATAPIN h"
  let ?h2 = "await_pin_state line PS2CLKPIN False ?h1"
  let ?h3 = "await_pin_state line PS2CLKPIN True ?h2"
  have "reads ?h1 = reads h" by simp
  moreover have "reads ?h2 \<le> reads ?h1 + 4096" using reads_await by blast
  moreover have "reads ?h3 \<le> reads ?h2 + 4096" using reads_await by blast
  ultimately have "reads ?h3 \<le> reads h + 8192" by linarith
  then show ?thesis by (simp add: st ps2_write_bit_def Let_def)
qed

lemma write_loop_unrolled:
  "write_loop line 0 st = (ps2_write_bit line ^^ 8) st"
proof -
  let ?f = "ps2_write_bit line"
  have "write_loop line 0 st = write_loop line 1 (?f st)"
    by (subst write_loop.simps) simp
  also have "\<dots> = write_loop line 2 (?f (?f st))"
    by (subst write_loop.simps) simp
  also have "\<dots> = write_loop line 3 (?f (?f (?f st)))"
    by (subst write_loop.simps) simp
  also have "\<dots> = write_loop line 4 (?f (?f (?f (?f st))))"
    by (subst write_loop.simps) simp
  also have "\<dots> = write_loop line 5 (?f (?f (?f (?f (?f st)))))"
    by (subst write_loop.simps) simp
  also have "\<dots> = write_loop line 6 (?f (?f (?f (?f (?f (?f st))))))"
    by (subst write_loop.simps) simp
  also have "\<dots> = write_loop line 7 (?f (?f (?f (?f (?f (?f (?f st)))))))"
    by (subst write_loop.simps) simp
  also have "\<dots> = write_loop line 8 (?f (?f (?f (?f (?f (?f (?f (?f st))))))))"
    by (subst write_loop.simps) simp
  also have "\<dots> = ?f (?f (?f (?f (?f (?f (?f (?f st)))))))"
    by (subst write_loop.simps) simp
  also have "\<dots> = (?f ^^ 8) st"
    by (simp add: eval_nat_numeral)
  finally show ?thesis .
qed

lemma reads_funpow_write_bit:
  "reads (snd (snd ((ps2_write_bit line ^^ k) st))) \<le> reads (snd (snd st)) + k * 8192"
proof (induction k)
  case 0
  show ?case by simp
next
  case (Suc k)
  have "reads (snd (snd (ps2_write_bit line ((ps2_write_bit line ^^ k) st))))
      \<le> reads (snd (snd ((ps2_write_bit line ^^ k) st))) + 8192"
    by (rule reads_write_bit)
  then show ?case using Suc.IH by simp
qed

text \<open>
  Claim C9. Whatever the lines do, also when the awaited level never comes, every
  \<open>await_pin_state\<close> returns after at least one and at most \<open>0x1000\<close> reads of the
  pin, that is after at most \<open>0xFFF\<close> turns of its loop, and \<open>ps2_write_byte\<close>, which
  waits 24 times, returns after at most \<open>24 * 0x1000\<close> reads. On a line that never
  shows the awaited level the wait takes exactly \<open>0x1000\<close> reads.
\<close>

theorem write_byte_bounded:
  "reads h < reads (await_pin_state line pin state h) \<and>
   reads (await_pin_state line pin state h) \<le> reads h + 0x1000 \<and>
   reads (await_pin_state (\<lambda>n p. \<not> state) pin state h) = reads h + 0x1000 \<and>
   reads (ps2_write_byte line dat h) \<le> reads h + 24 * 0x1000"
proof -
  have a: "reads (await_pin_state line p s x) \<le> reads x + 4096" for p s x
    using reads_await by blast
  have n: "reads (await_pin_state (\<lambda>n p. \<not> state) pin state h) = reads h + 0x1000"
    using await_loop_never [where line = "\<lambda>n p. \<not> state" and pin = pin and state = state
        and cnt = "0xFFF" and n = "reads h"]
    by (simp add: await_pin_state_def)
  define x0 where "x0 = delayMicroseconds 10 (weak_pullup PS2CLKPIN (delayMicroseconds 10
     (pull_down PS2DATAPIN (delayMicroseconds 200 (pull_down PS2CLKPIN
       (h\<lparr>EIMSK := EIMSK h AND NOT (push_bit INT0 1)\<rparr>))))))"
  define x1 where "x1 = await_pin_state line PS2CLKPIN False x0"
  define x2 where "x2 = await_pin_state line PS2CLKPIN True x1"
  define st where "st = write_loop line 0 (dat, 1, x2)"
  define x3 where "x3 = (if fst (snd st) \<noteq> 0 then weak_pullup PS2DATAPIN (snd (snd st))
     else pull_down PS2DATAPIN (snd (snd st)))"
  define x4 where "x4 = await_pin_state line PS2CLKPIN True x3"
  define x5 where "x5 = await_pin_state line PS2CLKPIN False x4"
  define x6 where "x6 = await_pin_state line PS2CLKPIN True (weak_pullup PS2DATAPIN x5)"
  define x7 where "x7 = await_pin_state line PS2CLKPIN False x6"
  define x8 where "x8 = await_pin_state line PS2CLKPIN True x7"
  define x9 where "x9 = await_pin_state line PS2DATAPIN True x8"
  have w: "ps2_write_byte line dat h = x9\<lparr>INTF0_pending := False,
      EIMSK := EIMSK (x9\<lparr>INTF0_pending := False\<rparr>) OR push_bit INT0 1\<rparr>"
    by (simp add: ps2_write_byte_def Let_def split_beta x9_def x8_def x7_def x6_def x5_def
        x4_def x3_def st_def x2_def x1_def x0_def)
  have r0: "reads x0 = reads h" by (simp add: x0_def)
  have r1: "reads x1 \<le> reads x0 + 4096" unfolding x1_def by (rule a)
  have r2: "reads x2 \<le> reads x1 + 4096" unfolding x2_def by (rule a)
  have rs: "reads (snd (snd st)) \<le> reads x2 + 8 * 8192"
    using reads_funpow_write_bit [where line = line and k = 8 and st = "(dat, 1, x2)"]
    by (simp add: st_def write_loop_unrolled)
  have r3: "reads x3 = reads (snd (snd st))" by (simp add: x3_def)
  have r4: "reads x4 \<le> reads x3 + 4096" unfolding x4_def by (rule a)
  have r5: "reads x5 \<le> reads x4 + 4096" unfolding x5_def by (rule a)
  have r6: "reads x6 \<le> reads x5 + 4096"
    using a [of PS2CLKPIN True "weak_pullup PS2DATAPIN x5"] by (simp add: x6_def)
  have r7: "reads x7 \<le> reads x6 + 4096" unfolding x7_def by (rule a)
  have r8: "reads x8 \<le> reads x7 + 4096" unfolding x8_def by (rule a)
  have r9: "reads x9 \<le> reads x8 + 4096" unfolding x9_def by (rule a)
  have "reads (ps2_write_byte line dat h) = reads x9" by (simp add: w)
  then have "reads (ps2_write_byte line dat h) \<le> reads h + 24 * 0x1000"
    using r0 r1 r2 rs r3 r4 r5 r6 r7 r8 r9 by linarith
  then show ?thesis
    using reads_await [where h = h and line = line and pin = pin and state = state] n by simp
qed

end
